theory Spec2Isabelle
  imports Complex_Main "HOL-Library.AList" "HOL-Library.Log_Nat" "HOL-Library.Monad_Syntax"
    "HOL-Library.Signed_Division"
begin

text \<open>
  A batch image converter that runs in the browser: \<open>services/imageProcessor.ts\<close> decodes
  an upload, draws it on a canvas, overlays a watermark and encodes the canvas;
  \<open>App.tsx\<close> takes files and archives into a queue, converts the queue item by item and
  hands the result to the download. The canvas is modelled by the list of drawing calls
  made on it, the browser and the archive library by what they answer.
\<close>

section \<open>Data model (types.ts)\<close>

text \<open>
  JavaScript numbers are modelled as exact reals: the geometry below is the source's
  arithmetic without floating-point rounding, and a division is only meaningful where
  its divisor is not zero (JavaScript yields Infinity or NaN there, HOL yields 0), so
  the theorems about a quotient assume positive dimensions. Pixel counts (the canvas
  size, the natural size of a decoded image, \<open>config.width\<close> and \<open>config.height\<close>, which
  the form writes with \<open>parseInt\<close>, \<open>Math.max(1, _)\<close> and \<open>Math.round\<close>) are naturals.
\<close>

datatype ImageFormat = JPG | PNG | WEBP

text \<open>The string value of each enum member (\<open>'image/jpeg'\<close>, ...).\<close>

fun format_string :: "ImageFormat \<Rightarrow> string" where
  "format_string JPG = ''image/jpeg''"
| "format_string PNG = ''image/png''"
| "format_string WEBP = ''image/webp''"

datatype WatermarkPosition = center | top_left | top_right | bottom_left | bottom_right | custom
datatype WatermarkMode = single | dual | triple | tiled
datatype WatermarkColorMode = original | grayscale

record ProcessingConfig =
  keepOriginalSize :: bool
  aspectRatio :: string
  width :: nat
  height :: nat
  format :: ImageFormat
  quality :: real
  fillBackground :: bool
  watermarkEnabled :: bool
  watermarkImageUrl :: "string option"
  watermarkOpacity :: real
  watermarkScale :: real
  watermarkRotation :: real
  watermarkPosition :: WatermarkPosition
  watermarkMode :: WatermarkMode
  watermarkColorMode :: WatermarkColorMode
  customX :: real
  customY :: real

text \<open>
  A decoded image (\<open>HTMLImageElement\<close>): its natural size and a handle for its pixels.
\<close>

record HTMLImageElement =
  img_width :: nat
  img_height :: nat
  img_pixels :: nat

text \<open>
  The archive library keeps one object per entry name (\<open>zip.files\<close>, a JavaScript object
  keyed by the entry's full path, enumerated in insertion order): an association list
  with distinct keys. An entry is a directory or carries data.
\<close>

datatype 'd ZipObject = Dir | Entry 'd

fun dir :: "'d ZipObject \<Rightarrow> bool" where
  "dir Dir = True"
| "dir (Entry d) = False"

type_synonym 'd JSZip = "(string \<times> 'd ZipObject) list"

text \<open>
  What a \<open>File\<close> or \<open>Blob\<close> holds, as far as the browser and the archive library can
  tell: bytes that decode to an image, bytes that parse as an archive, or neither.
\<close>

datatype FileData =
    ImageBytes HTMLImageElement
  | ZipBytes "(string \<times> FileData ZipObject) list"
  | OtherBytes

record File =
  file_name :: string
  file_type :: string
  file_data :: FileData

section \<open>The canvas\<close>

text \<open>
  One instance of the watermark: \<open>drawWM(cx, cy)\<close> translates to the centre, rotates by
  \<open>watermarkRotation\<close> degrees (converted to radians at the call) and draws the watermark
  image at \<open>(-halfW, -halfH)\<close> with size \<open>targetWmWidth x targetWmHeight\<close>, under the
  \<open>globalAlpha\<close> and the filter set before.
\<close>

record Placement =
  centerX :: real
  centerY :: real
  wmDrawWidth :: real
  wmDrawHeight :: real
  rotationDegrees :: real
  opacity :: real
  colorFilter :: WatermarkColorMode

text \<open>
  The drawing calls the compositor makes, in order: \<open>fillRect\<close> under the fill style
  \<open>'#FFFFFF'\<close>, \<open>drawImage(img, 0, 0)\<close>, \<open>drawImage(img, x, y, w, h)\<close> and \<open>drawWM\<close>.
\<close>

datatype CanvasOp =
    FillWhite real real real real
  | DrawImage HTMLImageElement real real
  | DrawImageScaled HTMLImageElement real real real real
  | DrawWatermark HTMLImageElement Placement

record Canvas =
  canvas_width :: nat
  canvas_height :: nat
  ops :: "CanvasOp list"

text \<open>The encoded output: \<open>canvas.toBlob(_, config.format, config.quality)\<close>.\<close>

record Blob =
  blob_canvas :: Canvas
  blob_format :: ImageFormat
  blob_quality :: real

datatype ItemStatus = pending | processing | success | error

text \<open>
  One queue item. The field \<open>file\<close> of the source is \<open>upload\<close> here; \<open>previewUrl\<close>,
  \<open>originalWidth\<close> and \<open>originalHeight\<close> are never read by the pipeline and are left out.
  The random \<open>id\<close> string is a number drawn from a counter.
\<close>

record UploadedFile =
  id :: nat
  upload :: File
  originalName :: string
  status :: ItemStatus
  errorMessage :: "string option"
  processedBlob :: "Blob option"

record ProcessSummary =
  total :: nat
  success_count :: nat
  failed :: nat
  outputZipName :: string

section \<open>What the browser decides\<close>

text \<open>
  The rejections and throws the source handles, as values.
\<close>

datatype Failure =
    DecodeError
  | NoCanvasContext
  | CanvasToBlobFailed
  | ZipParseError
  | DownloadError

text \<open>
  The platform's answers that the source cannot compute: whether a 2D context is
  available, what loading the watermark URL gives (\<open>None\<close>: \<open>onerror\<close>), whether
  \<open>toBlob\<close> delivers a blob for a canvas of a given size, whether the archive
  serialises, whether \<open>saveAs\<close> returns normally, and the clock.
\<close>

record Browser =
  getContext2d :: bool
  watermarkAt :: "string \<Rightarrow> HTMLImageElement option"
  toBlob_ok :: "nat \<Rightarrow> nat \<Rightarrow> bool"
  generateAsync_ok :: bool
  saveAs_ok :: bool
  now :: nat

section \<open>JavaScript numbers\<close>

text \<open>
  A JavaScript number is an IEEE 754 double. Where a number only sizes or positions a
  drawing call, this theory computes it over the reals: rounding moves such a number in
  its last bits and leaves the kind, the number and the order of the drawing calls as
  they are. Where the last bit decides what the code does, each arithmetic operation
  gives the exact result rounded to the nearest double, a tie going to the even mantissa,
  as the processor computes it: in the tiling loop, whose exit tests and whose parity
  test read sums and quotients that are not exact, and in the progress percentage that
  \<open>Math.round\<close> reads.

  A double other than 0 is \<open>m * 2 ^ (e - 52)\<close> with an integer \<open>m\<close>,
  \<open>2 ^ 52 \<le> \<bar>m\<bar> < 2 ^ 53\<close>; \<open>e\<close>, the binade of the number, is the integer part of its
  binary logarithm. The exponent is not bounded here: overflow to \<open>Infinity\<close> and the
  subnormal numbers are not modelled.
\<close>

text \<open>The nearest integer, a tie going to the even one.\<close>

definition roundTiesToEven :: "real \<Rightarrow> int" where
  "roundTiesToEven x =
     (let f = \<lfloor>x\<rfloor>; d = x - of_int f
      in if d < 1 / 2 then f else if 1 / 2 < d then f + 1 else if even f then f else f + 1)"

text \<open>
  The integer part of the binary logarithm of \<open>\<bar>x\<bar>\<close>, for \<open>x\<close> other than 0, counted on
  the integer part of \<open>\<bar>x\<bar>\<close> or of its inverse.
\<close>

definition binade :: "real \<Rightarrow> int" where
  "binade x =
     (if 1 \<le> \<bar>x\<bar> then int (floorlog 2 (nat \<lfloor>\<bar>x\<bar>\<rfloor>)) - 1
      else - int (floorlog 2 (nat (\<lceil>1 / \<bar>x\<bar>\<rceil> - 1))))"

text \<open>The double nearest to a real: the mantissa is rounded to 53 bits.\<close>

definition double :: "real \<Rightarrow> real" where
  "double x =
     (if x = 0 then 0
      else of_int (roundTiesToEven (x / 2 powi (binade x - 52))) * 2 powi (binade x - 52))"

section \<open>services/imageProcessor.ts\<close>

definition loadImage :: "File \<Rightarrow> Failure + HTMLImageElement" where
  "loadImage f = (case file_data f of ImageBytes img \<Rightarrow> Inr img | _ \<Rightarrow> Inl DecodeError)"

definition loadWatermarkImage :: "Browser \<Rightarrow> string \<Rightarrow> Failure + HTMLImageElement" where
  "loadWatermarkImage b src = (case watermarkAt b src of Some img \<Rightarrow> Inr img | None \<Rightarrow> Inl DecodeError)"

subsection \<open>The base draw\<close>

record DrawRect =
  offsetX :: real
  offsetY :: real
  drawWidth :: real
  drawHeight :: real

text \<open>Lines 219 to 232 of \<open>processImage\<close>: the rectangle the image is drawn into.\<close>

definition baseRect :: "HTMLImageElement \<Rightarrow> ProcessingConfig \<Rightarrow> DrawRect" where
  "baseRect img config =
     (let srcRatio = real (img_width img) / real (img_height img);
          dstRatio = real (width config) / real (height config)
      in if srcRatio > dstRatio then
           (let dw = real (width config);
                dh = real (img_height img) * (real (width config) / real (img_width img))
            in \<lparr>offsetX = 0, offsetY = (real (height config) - dh) / 2,
                drawWidth = dw, drawHeight = dh\<rparr>)
         else
           (let dh = real (height config);
                dw = real (img_width img) * (real (height config) / real (img_height img))
            in \<lparr>offsetX = (real (width config) - dw) / 2, offsetY = 0,
                drawWidth = dw, drawHeight = dh\<rparr>))"

definition shouldFillBackground :: "ProcessingConfig \<Rightarrow> bool" where
  "shouldFillBackground config = (format config = JPG \<or> fillBackground config)"

text \<open>
  Lines 202 to 234: the canvas after the size is set and the base image is drawn. The
  smoothing settings of lines 213 and 214 change no call and are left out.
\<close>

definition drawBase :: "HTMLImageElement \<Rightarrow> ProcessingConfig \<Rightarrow> Canvas" where
  "drawBase img config =
     (if keepOriginalSize config then
        (let w = img_width img; h = img_height img
         in \<lparr>canvas_width = w, canvas_height = h,
             ops = (if shouldFillBackground config then [FillWhite 0 0 (real w) (real h)] else [])
                   @ [DrawImage img 0 0]\<rparr>)
      else
        (let w = width config; h = height config; r = baseRect img config
         in \<lparr>canvas_width = w, canvas_height = h,
             ops = (if shouldFillBackground config then [FillWhite 0 0 (real w) (real h)] else [])
                   @ [DrawImageScaled img (offsetX r) (offsetY r) (drawWidth r) (drawHeight r)]\<rparr>))"

subsection \<open>The watermark geometry\<close>

text \<open>Lines 247 to 252: the rendered size of the watermark, the margin and the half extents.\<close>

definition wmAspectRatio :: "HTMLImageElement \<Rightarrow> real" where
  "wmAspectRatio wmImg = real (img_width wmImg) / real (img_height wmImg)"

definition targetWmWidth :: "Canvas \<Rightarrow> ProcessingConfig \<Rightarrow> real" where
  "targetWmWidth canvas config = real (canvas_width canvas) * (watermarkScale config / 100)"

definition targetWmHeight :: "Canvas \<Rightarrow> ProcessingConfig \<Rightarrow> HTMLImageElement \<Rightarrow> real" where
  "targetWmHeight canvas config wmImg = targetWmWidth canvas config / wmAspectRatio wmImg"

definition padding :: "Canvas \<Rightarrow> real" where
  "padding canvas = max (real (canvas_width canvas)) (real (canvas_height canvas)) * (3 / 100)"

definition halfW :: "Canvas \<Rightarrow> ProcessingConfig \<Rightarrow> real" where
  "halfW canvas config = targetWmWidth canvas config / 2"

definition halfH :: "Canvas \<Rightarrow> ProcessingConfig \<Rightarrow> HTMLImageElement \<Rightarrow> real" where
  "halfH canvas config wmImg = targetWmHeight canvas config wmImg / 2"

text \<open>
  \<open>drawWM(cx, cy)\<close>, with the \<open>globalAlpha\<close> and the filter that lines 242 to 246 set
  once for all instances.
\<close>

definition drawWM :: "Canvas \<Rightarrow> ProcessingConfig \<Rightarrow> HTMLImageElement \<Rightarrow> real \<times> real \<Rightarrow> CanvasOp" where
  "drawWM canvas config wmImg c =
     DrawWatermark wmImg
       \<lparr>centerX = fst c, centerY = snd c,
        wmDrawWidth = targetWmWidth canvas config,
        wmDrawHeight = targetWmHeight canvas config wmImg,
        rotationDegrees = watermarkRotation config,
        opacity = watermarkOpacity config,
        colorFilter = watermarkColorMode config\<rparr>"

subsection \<open>The tiling loop\<close>

text \<open>
  Lines 247 to 249 as the loop reads them: \<open>canvas.width * (config.watermarkScale / 100)\<close>
  and \<open>targetWmWidth / (wmImg.width / wmImg.height)\<close>, each operation rounded. A quotient
  by 0 is 0 in HOL and \<open>Infinity\<close> or \<open>NaN\<close> in JavaScript: the two definitions are the
  code's for a watermark image of positive size.
\<close>

definition roundedWmWidth :: "Canvas \<Rightarrow> ProcessingConfig \<Rightarrow> real" where
  "roundedWmWidth canvas config =
     double (real (canvas_width canvas) * double (watermarkScale config / 100))"

definition roundedWmHeight :: "Canvas \<Rightarrow> ProcessingConfig \<Rightarrow> HTMLImageElement \<Rightarrow> real" where
  "roundedWmHeight canvas config wmImg =
     double (roundedWmWidth canvas config / double (real (img_width wmImg) / real (img_height wmImg)))"

text \<open>
  Line 272: \<open>(Math.floor((y + stepY) / stepY) % 2 === 0) ? stepX / 2 : 0\<close>. The sum and
  the quotient are rounded; the floor of a double and its remainder are exact. The
  remainder \<open>%\<close> takes the sign of the dividend (\<open>smod\<close>). With \<open>stepY = 0\<close> the quotient is
  Infinity or NaN in JavaScript, its remainder NaN, and the test is false.
\<close>

definition rowOffset :: "real \<Rightarrow> real \<Rightarrow> real \<Rightarrow> real" where
  "rowOffset stepX stepY y =
     (if stepY \<noteq> 0 \<and> \<lfloor>double (double (y + stepY) / stepY)\<rfloor> smod 2 = 0
      then double (stepX / 2) else 0)"

text \<open>
  The inner loop \<open>for (let y = -stepY; y < canvas.height + stepY; y += stepY)\<close> from the
  current \<open>y\<close>, appending the centre \<open>(x + rowOffset, y)\<close> of each \<open>drawWM\<close> call to
  \<open>acc\<close>. The update of \<open>y\<close> and the sum \<open>x + rowOffset\<close> are rounded. A loop that never
  leaves is \<open>None\<close>.
\<close>

partial_function (option) tileColumn ::
  "real \<Rightarrow> real \<Rightarrow> real \<Rightarrow> real \<Rightarrow> real \<Rightarrow> (real \<times> real) list \<Rightarrow> (real \<times> real) list option" where
  "tileColumn stepX stepY limitY x y acc =
     (if y < limitY
      then tileColumn stepX stepY limitY x (double (y + stepY))
             (acc @ [(double (x + rowOffset stepX stepY y), y)])
      else Some acc)"

text \<open>The outer loop \<open>for (let x = -stepX; x < canvas.width + stepX; x += stepX)\<close>.\<close>

partial_function (option) tileGrid ::
  "real \<Rightarrow> real \<Rightarrow> real \<Rightarrow> real \<Rightarrow> real \<Rightarrow> (real \<times> real) list \<Rightarrow> (real \<times> real) list option" where
  "tileGrid stepX stepY limitX limitY x acc =
     (if x < limitX
      then do {
        acc' \<leftarrow> tileColumn stepX stepY limitY x (- stepY) acc;
        tileGrid stepX stepY limitX limitY (double (x + stepX)) acc'
      }
      else Some acc)"

declare tileColumn.simps [code]
declare tileGrid.simps [code]

text \<open>Lines 263 and 264: \<open>targetWmWidth * 1.5\<close> and \<open>targetWmHeight * 1.5\<close>, rounded.\<close>

definition stepX :: "Canvas \<Rightarrow> ProcessingConfig \<Rightarrow> real" where
  "stepX canvas config = double (roundedWmWidth canvas config * (3 / 2))"

definition stepY :: "Canvas \<Rightarrow> ProcessingConfig \<Rightarrow> HTMLImageElement \<Rightarrow> real" where
  "stepY canvas config wmImg = double (roundedWmHeight canvas config wmImg * (3 / 2))"

text \<open>
  The limits \<open>canvas.width + stepX\<close> and \<open>canvas.height + stepY\<close> of the two loop
  headers, rounded sums.
\<close>

definition limitX :: "Canvas \<Rightarrow> ProcessingConfig \<Rightarrow> real" where
  "limitX canvas config = double (real (canvas_width canvas) + stepX canvas config)"

definition limitY :: "Canvas \<Rightarrow> ProcessingConfig \<Rightarrow> HTMLImageElement \<Rightarrow> real" where
  "limitY canvas config wmImg = double (real (canvas_height canvas) + stepY canvas config wmImg)"

text \<open>Lines 262 to 275: the centres the tiled mode draws at, in drawing order.\<close>

definition tiledCentres :: "Canvas \<Rightarrow> ProcessingConfig \<Rightarrow> HTMLImageElement \<Rightarrow> (real \<times> real) list option" where
  "tiledCentres canvas config wmImg =
     (let sx = stepX canvas config; sy = stepY canvas config wmImg
      in tileGrid sx sy (limitX canvas config) (limitY canvas config wmImg) (- sx) [])"

subsection \<open>The fixed layouts\<close>

text \<open>Lines 277 to 301: the array \<open>positions\<close> of the modes other than tiled.\<close>

definition positions :: "Canvas \<Rightarrow> ProcessingConfig \<Rightarrow> HTMLImageElement \<Rightarrow> (real \<times> real) list" where
  "positions canvas config wmImg =
     (let cw = real (canvas_width canvas); ch = real (canvas_height canvas);
          p = padding canvas; hw = halfW canvas config; hh = halfH canvas config wmImg
      in case watermarkMode config of
           single \<Rightarrow>
             [if watermarkPosition config = custom
              then ((customX config / 100) * cw, (customY config / 100) * ch)
              else (case watermarkPosition config of
                      center \<Rightarrow> (cw / 2, ch / 2)
                    | top_left \<Rightarrow> (p + hw, p + hh)
                    | top_right \<Rightarrow> (cw - p - hw, p + hh)
                    | bottom_left \<Rightarrow> (p + hw, ch - p - hh)
                    | bottom_right \<Rightarrow> (cw - p - hw, ch - p - hh)
                    | custom \<Rightarrow> (cw / 2, ch / 2))]
         | dual \<Rightarrow> [(p + hw, p + hh), (cw - p - hw, ch - p - hh)]
         | triple \<Rightarrow> [(p + hw, p + hh), (cw / 2, ch / 2), (cw - p - hw, ch - p - hh)]
         | tiled \<Rightarrow> [])"

text \<open>The centres of all \<open>drawWM\<close> calls of one composite, in order.\<close>

definition watermarkCentres :: "Canvas \<Rightarrow> ProcessingConfig \<Rightarrow> HTMLImageElement \<Rightarrow> (real \<times> real) list option" where
  "watermarkCentres canvas config wmImg =
     (if watermarkMode config = tiled then tiledCentres canvas config wmImg
      else Some (positions canvas config wmImg))"

subsection \<open>processImage\<close>

text \<open>
  The body of the \<open>try\<close> block of lines 237 to 304: \<open>Inl\<close> when the watermark image
  does not load, otherwise the canvas with one \<open>drawWM\<close> per centre.
\<close>

definition applyWatermark ::
  "Browser \<Rightarrow> ProcessingConfig \<Rightarrow> string \<Rightarrow> Canvas \<Rightarrow> (Failure + Canvas) option" where
  "applyWatermark b config url canvas =
     (case loadWatermarkImage b url of
        Inl e \<Rightarrow> Some (Inl e)
      | Inr wmImg \<Rightarrow>
          do {
            cs \<leftarrow> watermarkCentres canvas config wmImg;
            Some (Inr (canvas\<lparr>ops := ops canvas @ map (drawWM canvas config wmImg) cs\<rparr>))
          })"

text \<open>
  \<open>config.watermarkEnabled && config.watermarkImageUrl\<close>: the URL is not \<open>null\<close> and not
  the empty string.
\<close>

definition watermarkRequested :: "ProcessingConfig \<Rightarrow> string option" where
  "watermarkRequested config =
     (if watermarkEnabled config
      then (case watermarkImageUrl config of
              None \<Rightarrow> None
            | Some url \<Rightarrow> if url = [] then None else Some url)
      else None)"

text \<open>
  \<open>processImage(file, config)\<close>: \<open>Some (Inr blob)\<close> when the promise resolves,
  \<open>Some (Inl e)\<close> when it rejects, \<open>None\<close> when the tiling loop never ends. The \<open>catch\<close>
  of line 305 keeps the canvas as the base draw left it.
\<close>

definition processImage :: "Browser \<Rightarrow> UploadedFile \<Rightarrow> ProcessingConfig \<Rightarrow> (Failure + Blob) option" where
  "processImage b f config =
     (case loadImage (upload f) of
        Inl e \<Rightarrow> Some (Inl e)
      | Inr img \<Rightarrow>
          if \<not> getContext2d b then Some (Inl NoCanvasContext)
          else
            (let canvas = drawBase img config
             in do {
               canvas' \<leftarrow>
                 (case watermarkRequested config of
                    None \<Rightarrow> Some canvas
                  | Some url \<Rightarrow>
                      (case applyWatermark b config url canvas of
                         None \<Rightarrow> None
                       | Some (Inl e) \<Rightarrow> Some canvas
                       | Some (Inr c) \<Rightarrow> Some c));
               Some (if toBlob_ok b (canvas_width canvas') (canvas_height canvas')
                     then Inr \<lparr>blob_canvas = canvas', blob_format = format config,
                               blob_quality = quality config\<rparr>
                     else Inl CanvasToBlobFailed)
             }))"

section \<open>Strings\<close>

text \<open>
  The string operations of the source. Strings are byte lists here; the separators the
  source looks for (\<open>/\<close> and \<open>.\<close>) and the letters of the extensions are ASCII.
\<close>

definition endsWith :: "string \<Rightarrow> string \<Rightarrow> bool" where
  "endsWith s suffix = (length suffix \<le> length s \<and> drop (length s - length suffix) s = suffix)"

definition startsWith :: "string \<Rightarrow> string \<Rightarrow> bool" where
  "startsWith s prefix = (take (length prefix) s = prefix)"

text \<open>\<open>s.split(c)\<close> for a one-character separator: never empty.\<close>

fun split :: "string \<Rightarrow> char \<Rightarrow> string list" where
  "split [] c = [[]]"
| "split (x # xs) c =
     (if x = c then [] # split xs c
      else (case split xs c of h # t \<Rightarrow> (x # h) # t | [] \<Rightarrow> [[x]]))"

text \<open>\<open>s.lastIndexOf(c)\<close>: \<open>-1\<close> when \<open>c\<close> does not occur.\<close>

definition lastIndexOf :: "string \<Rightarrow> char \<Rightarrow> int" where
  "lastIndexOf s c =
     (if c \<in> set s then int (length s) - 1 - int (length (takeWhile (\<lambda>x. x \<noteq> c) (rev s)))
      else - 1)"

text \<open>\<open>s.substring(0, e)\<close>: a negative end counts as 0.\<close>

definition substring0 :: "string \<Rightarrow> int \<Rightarrow> string" where
  "substring0 s e = take (nat e) s"

text \<open>The decimal digits of a natural, as a template literal prints an integer below 10^21.\<close>

fun digits :: "nat \<Rightarrow> string" where
  "digits n =
     (if n < 10 then [''0123456789'' ! n]
      else digits (n div 10) @ [''0123456789'' ! (n mod 10)])"

declare digits.simps [simp del]

definition toLowerAscii :: "char \<Rightarrow> char" where
  "toLowerAscii c =
     (case map_of (zip ''ABCDEFGHIJKLMNOPQRSTUVWXYZ'' ''abcdefghijklmnopqrstuvwxyz'') c of
        Some l \<Rightarrow> l
      | None \<Rightarrow> c)"

text \<open>
  \<open>/\\.(jpg|jpeg|png|webp|gif)$/i.test(filename)\<close>: the name ends in a dot and one of
  the five extensions, letters compared without case.
\<close>

definition imageExtensions :: "string list" where
  "imageExtensions = [''jpg'', ''jpeg'', ''png'', ''webp'', ''gif'']"

definition isImageName :: "string \<Rightarrow> bool" where
  "isImageName filename =
     (\<exists>e \<in> set imageExtensions. endsWith (map toLowerAscii filename) (CHR ''.'' # e))"

section \<open>The archive library\<close>

text \<open>
  \<open>zip.folder(name)\<close> adds the directory entry \<open>name/\<close> and gives a view rooted there;
  \<open>folder.file(name, data)\<close> adds the entry \<open>folder + name\<close>, or replaces the entry of
  that name when there is one (\<open>files[name] = object\<close>).
\<close>

definition zip_folder :: "string \<Rightarrow> 'd JSZip \<Rightarrow> 'd JSZip" where
  "zip_folder name z = AList.update (name @ ''/'') Dir z"

definition zip_file :: "string \<Rightarrow> string \<Rightarrow> 'd \<Rightarrow> 'd JSZip \<Rightarrow> 'd JSZip" where
  "zip_file folder name d z = AList.update (folder @ name) (Entry d) z"

section \<open>Archives in and out (services/imageProcessor.ts)\<close>

text \<open>\<open>filename.split('/').pop() || filename\<close>.\<close>

definition cleanName :: "string \<Rightarrow> string" where
  "cleanName filename = (let seg = last (split filename CHR ''/'') in if seg = [] then filename else seg)"

text \<open>
  \<open>extractImagesFromZip\<close>: rejects when the library cannot read the archive; otherwise
  one \<open>File\<close> per entry that passes the filter, in the order of \<open>Object.keys\<close>. The
  blob the library reads from an entry carries no MIME type.
\<close>

definition zipFilter :: "string \<times> 'd ZipObject \<Rightarrow> bool" where
  "zipFilter e = (\<not> dir (snd e) \<and> isImageName (fst e))"

definition extractImagesFromZip :: "File \<Rightarrow> Failure + File list" where
  "extractImagesFromZip zipFile =
     (case file_data zipFile of
        ZipBytes loadedZip \<Rightarrow>
          Inr (map (\<lambda>(filename, obj).
                      \<lparr>file_name = cleanName filename, file_type = [],
                       file_data = (case obj of Entry fileData \<Rightarrow> fileData | Dir \<Rightarrow> OtherBytes)\<rparr>)
                   (filter zipFilter loadedZip))
      | _ \<Rightarrow> Inl ZipParseError)"

text \<open>
  The name of a converted file, computed by the same three lines in \<open>startProcessing\<close>
  (161 to 163) and in \<open>packageZip\<close> (328 to 330).
\<close>

definition ext :: "ProcessingConfig \<Rightarrow> string" where
  "ext config =
     (case split (format_string (format config)) CHR ''/'' of
        _ # e # _ \<Rightarrow> e
      | _ \<Rightarrow> ''undefined'')"

definition baseName :: "string \<Rightarrow> string" where
  "baseName name =
     (let b = substring0 name (lastIndexOf name CHR ''.'')
      in if b = [] then name else b)"

definition fileName :: "string \<Rightarrow> ProcessingConfig \<Rightarrow> string" where
  "fileName name config =
     (if keepOriginalSize config
      then baseName name @ ''_converted.'' @ ext config
      else baseName name @ ''_'' @ digits (width config) @ ''x'' @ digits (height config)
           @ ''_converted.'' @ ext config)"

definition folderName :: "ProcessingConfig \<Rightarrow> string" where
  "folderName config =
     (if keepOriginalSize config then ''converted_original_size''
      else ''converted_'' @ digits (width config) @ ''x'' @ digits (height config))"

text \<open>\<open>packageZip\<close>: the archive that \<open>generateAsync\<close> serialises.\<close>

definition packageZip :: "UploadedFile list \<Rightarrow> ProcessingConfig \<Rightarrow> Blob JSZip" where
  "packageZip processedFiles config =
     foldl (\<lambda>z f.
              case processedBlob f of
                Some blob \<Rightarrow>
                  if status f = success
                  then zip_file (folderName config @ ''/'') (fileName (originalName f) config) blob z
                  else z
              | None \<Rightarrow> z)
           (zip_folder (folderName config) [])
           processedFiles"

section \<open>App.tsx\<close>

text \<open>The initial value of \<open>config\<close> (lines 14 to 32).\<close>

definition initialConfig :: ProcessingConfig where
  "initialConfig =
     \<lparr>keepOriginalSize = False, aspectRatio = ''custom'', width = 800, height = 600,
      format = JPG, quality = 85 / 100, fillBackground = False,
      watermarkEnabled = False, watermarkImageUrl = None, watermarkOpacity = 8 / 10,
      watermarkScale = 20, watermarkRotation = 0, watermarkPosition = bottom_right,
      watermarkMode = single, watermarkColorMode = original, customX = 50, customY = 50\<rparr>"

text \<open>What \<open>saveAs\<close> is handed: one encoded image, or the serialised archive.\<close>

datatype Download = SavedImage Blob | SavedZip "Blob JSZip"

text \<open>
  The component's state (\<open>files\<close>, \<open>isProcessing\<close>, \<open>progress\<close>, \<open>summary\<close>), and what it
  has done to the outside: the calls of \<open>saveAs\<close> and of \<open>alert\<close>, in order, and the
  counter the item ids are drawn from.
\<close>

record AppState =
  files :: "UploadedFile list"
  isProcessing :: bool
  progress :: int
  summary :: "ProcessSummary option"
  saved :: "(Download \<times> string) list"
  alerts :: "string list"
  nextId :: nat

subsection \<open>Intake\<close>

definition newUpload :: "nat \<Rightarrow> File \<Rightarrow> UploadedFile" where
  "newUpload n f =
     \<lparr>id = n, upload = f, originalName = file_name f, status = pending,
      errorMessage = None, processedBlob = None\<rparr>"

definition isZipFile :: "File \<Rightarrow> bool" where
  "isZipFile f =
     (file_type f = ''application/zip'' \<or> file_type f = ''application/x-zip-compressed''
      \<or> endsWith (file_name f) ''.zip'')"

text \<open>The loop of \<open>processFiles\<close> (lines 114 to 125) over \<open>newFiles\<close>, the alerts and the counter.\<close>

fun collectFiles ::
  "File list \<Rightarrow> UploadedFile list \<times> string list \<times> nat \<Rightarrow> UploadedFile list \<times> string list \<times> nat" where
  "collectFiles [] acc = acc"
| "collectFiles (f # fileList) (newFiles, al, n) =
     collectFiles fileList
       (if isZipFile f then
          (case extractImagesFromZip f of
             Inr extracted \<Rightarrow>
               (newFiles @ map (\<lambda>(k, img). newUpload k img) (zip [n ..< n + length extracted] extracted),
                al, n + length extracted)
           | Inl e \<Rightarrow> (newFiles, al @ [''Failed to parse ZIP: '' @ file_name f], n))
        else if startsWith (file_type f) ''image/'' then (newFiles @ [newUpload n f], al, n + 1)
        else (newFiles, al, n))"

definition processFiles :: "File list \<Rightarrow> AppState \<Rightarrow> AppState" where
  "processFiles fileList st =
     (case collectFiles fileList ([], alerts st, nextId st) of
        (newFiles, al, n) \<Rightarrow>
          st\<lparr>files := files st @ newFiles, summary := None, alerts := al, nextId := n\<rparr>)"

subsection \<open>The run\<close>

text \<open>
  \<open>Math.round\<close>: the nearest integer, a half rounding up. Its argument
  \<open>((i + 1) / updatedFiles.length) * 100\<close> is a rounded quotient times 100, rounded.
\<close>

definition js_round :: "real \<Rightarrow> int" where
  "js_round x = \<lfloor>x + 1 / 2\<rfloor>"

text \<open>
  One pass of the loop body (lines 149 to 154) at index \<open>i\<close>: the updated array and
  whether the composite resolved. \<open>None\<close> when the composite never returns.
\<close>

definition processItem ::
  "Browser \<Rightarrow> ProcessingConfig \<Rightarrow> UploadedFile list \<Rightarrow> nat \<Rightarrow> (UploadedFile list \<times> bool) option" where
  "processItem b config updatedFiles i =
     (let fs = updatedFiles[i := (updatedFiles ! i)\<lparr>status := processing\<rparr>]
      in case processImage b (fs ! i) config of
           None \<Rightarrow> None
         | Some (Inr blob) \<Rightarrow>
             Some (fs[i := (fs ! i)\<lparr>status := success, processedBlob := Some blob\<rparr>], True)
         | Some (Inl e) \<Rightarrow>
             Some (fs[i := (fs ! i)\<lparr>status := error, errorMessage := Some ''Conversion failed''\<rparr>], False))"

text \<open>
  The loop \<open>for (let i = 0; i < updatedFiles.length; i++)\<close> from index \<open>i\<close>, over the
  array, \<open>successCount\<close>, \<open>failCount\<close> and the progress last set.
\<close>

function processQueue ::
  "Browser \<Rightarrow> ProcessingConfig \<Rightarrow> nat \<Rightarrow> UploadedFile list \<Rightarrow> nat \<Rightarrow> nat \<Rightarrow> int
   \<Rightarrow> (UploadedFile list \<times> nat \<times> nat \<times> int) option" where
  "processQueue b config i updatedFiles successCount failCount prog =
     (if i < length updatedFiles then
        (case processItem b config updatedFiles i of
           None \<Rightarrow> None
         | Some (fs, ok) \<Rightarrow>
             processQueue b config (i + 1) fs
               (if ok then successCount + 1 else successCount)
               (if ok then failCount else failCount + 1)
               (js_round (double (double (real (i + 1) / real (length fs)) * 100))))
      else Some (updatedFiles, successCount, failCount, prog))"
  by pat_completeness auto
termination
  by (relation "measure (\<lambda>(b, config, i, fs, sc, fc, p). length fs - i)")
     (auto simp: processItem_def Let_def split: option.splits sum.splits)

declare processQueue.simps [simp del]

text \<open>Lines 157 to 174: the download and the summary after the loop.\<close>

definition finishRun ::
  "Browser \<Rightarrow> ProcessingConfig \<Rightarrow> AppState \<Rightarrow> UploadedFile list \<Rightarrow> nat \<Rightarrow> nat \<Rightarrow> AppState" where
  "finishRun b config st updatedFiles successCount failCount =
     (let st' =
        (if successCount > 0 then
           (let successfulFiles =
                  filter (\<lambda>f. status f = success \<and> processedBlob f \<noteq> None) updatedFiles
            in if length successfulFiles = 1 then
                 (let f = hd successfulFiles;
                      name = fileName (originalName f) config;
                      done = \<lparr>total = length updatedFiles, success_count = successCount,
                              failed = failCount, outputZipName = name\<rparr>
                  in case processedBlob f of
                       Some blob \<Rightarrow>
                         (let st1 = st\<lparr>saved := saved st @ [(SavedImage blob, name)]\<rparr>
                          in if saveAs_ok b then st1\<lparr>summary := Some done\<rparr> else st1)
                     | None \<Rightarrow> st\<lparr>summary := Some done\<rparr>)
               else if \<not> generateAsync_ok b then st
               else
                 (let zipBlob = packageZip updatedFiles config;
                      zipName = ''converted_images_'' @ digits (now b) @ ''.zip'';
                      st1 = st\<lparr>saved := saved st @ [(SavedZip zipBlob, zipName)]\<rparr>
                  in if saveAs_ok b
                     then st1\<lparr>summary := Some \<lparr>total = length updatedFiles, success_count = successCount,
                                                failed = failCount, outputZipName = zipName\<rparr>\<rparr>
                     else st1))
         else st\<lparr>summary := Some \<lparr>total = length updatedFiles, success_count = 0,
                                  failed = failCount, outputZipName = []\<rparr>\<rparr>)
      in st'\<lparr>isProcessing := False\<rparr>)"

text \<open>
  \<open>startProcessing\<close>, to the state when it returns; \<open>None\<close> when a composite never
  returns.
\<close>

definition startProcessing :: "Browser \<Rightarrow> ProcessingConfig \<Rightarrow> AppState \<Rightarrow> AppState option" where
  "startProcessing b config st =
     (if length (files st) = 0 then Some st
      else
        (let st0 = st\<lparr>isProcessing := True, progress := 0, summary := None\<rparr>
         in case processQueue b config 0 (files st) 0 0 0 of
              None \<Rightarrow> None
            | Some (updatedFiles, successCount, failCount, prog) \<Rightarrow>
                Some (finishRun b config (st0\<lparr>files := updatedFiles, progress := prog\<rparr>)
                        updatedFiles successCount failCount)))"

section \<open>Reading the canvas\<close>

fun isBaseDraw :: "CanvasOp \<Rightarrow> bool" where
  "isBaseDraw (DrawImage img x y) = True"
| "isBaseDraw (DrawImageScaled img x y w h) = True"
| "isBaseDraw _ = False"

fun isWatermarkDraw :: "CanvasOp \<Rightarrow> bool" where
  "isWatermarkDraw (DrawWatermark wmImg p) = True"
| "isWatermarkDraw _ = False"

text \<open>The fill of lines 205 to 208 and 215 to 218, as a list of zero or one calls.\<close>

definition whiteFill :: "ProcessingConfig \<Rightarrow> Canvas \<Rightarrow> CanvasOp list" where
  "whiteFill config canvas =
     (if format config = JPG \<or> fillBackground config
      then [FillWhite 0 0 (real (canvas_width canvas)) (real (canvas_height canvas))] else [])"

section \<open>The tiling loop in closed form\<close>

text \<open>
  \<open>passes s limit v n\<close>: from the value \<open>v\<close> of its variable, a loop
  \<open>for (...; v < limit; v += s)\<close> makes exactly \<open>n\<close> passes, that is, the test holds \<open>n\<close>
  times and then fails. \<open>stepsFrom s v n\<close>: the values of the variable in the first \<open>n\<close>
  passes. Each update is a rounded sum.
\<close>

fun passes :: "real \<Rightarrow> real \<Rightarrow> real \<Rightarrow> nat \<Rightarrow> bool" where
  "passes s limit v 0 = (\<not> v < limit)"
| "passes s limit v (Suc n) = (v < limit \<and> passes s limit (double (v + s)) n)"

fun stepsFrom :: "real \<Rightarrow> real \<Rightarrow> nat \<Rightarrow> real list" where
  "stepsFrom s v 0 = []"
| "stepsFrom s v (Suc n) = v # stepsFrom s (double (v + s)) n"

text \<open>
  What the inner loop draws in the column of \<open>x\<close> over the rows \<open>ys\<close>, and what the two
  loops draw over the columns \<open>xs\<close> and the rows \<open>ys\<close>.
\<close>

definition columnCentres :: "real \<Rightarrow> real \<Rightarrow> real \<Rightarrow> real list \<Rightarrow> (real \<times> real) list" where
  "columnCentres sx sy x ys = map (\<lambda>y. (double (x + rowOffset sx sy y), y)) ys"

definition gridCentres :: "real \<Rightarrow> real \<Rightarrow> real list \<Rightarrow> real list \<Rightarrow> (real \<times> real) list" where
  "gridCentres sx sy xs ys = concat (map (\<lambda>x. columnCentres sx sy x ys) xs)"

section \<open>The words of the specification\<close>

text \<open>The part of a name after its last dot, when it has a dot.\<close>

definition extension :: "string \<Rightarrow> string option" where
  "extension name =
     (if CHR ''.'' \<in> set name then Some (rev (takeWhile (\<lambda>c. c \<noteq> CHR ''.'') (rev name))) else None)"

text \<open>
  A qualifying entry: not a directory, with one of the five extensions, letters compared
  without case.
\<close>

definition qualifies :: "string \<times> 'd ZipObject \<Rightarrow> bool" where
  "qualifies e =
     (\<not> dir (snd e) \<and>
      (case extension (fst e) of
         Some x \<Rightarrow> map toLowerAscii x \<in> {''jpg'', ''jpeg'', ''png'', ''webp'', ''gif''}
       | None \<Rightarrow> False))"

text \<open>The part of a name after its last slash.\<close>

definition lastSegment :: "string \<Rightarrow> string" where
  "lastSegment name = rev (takeWhile (\<lambda>c. c \<noteq> CHR ''/'') (rev name))"

section \<open>The outcome of one item\<close>

text \<open>
  Whether the composite of an item resolves, and the item as the loop body leaves it
  (lines 152 and 154) once the composite has returned.
\<close>

definition resolves :: "Browser \<Rightarrow> ProcessingConfig \<Rightarrow> UploadedFile \<Rightarrow> bool" where
  "resolves b config f = (case processImage b f config of Some (Inr blob) \<Rightarrow> True | _ \<Rightarrow> False)"

definition settle :: "Browser \<Rightarrow> ProcessingConfig \<Rightarrow> UploadedFile \<Rightarrow> UploadedFile" where
  "settle b config f =
     (case processImage b f config of
        Some (Inr blob) \<Rightarrow> f\<lparr>status := success, processedBlob := Some blob\<rparr>
      | _ \<Rightarrow> f\<lparr>status := error, errorMessage := Some ''Conversion failed''\<rparr>)"

text \<open>
  The test \<open>packageZip\<close> files an item on (line 327), and the key it files it under.
\<close>

definition packaged :: "UploadedFile \<Rightarrow> bool" where
  "packaged f = (status f = success \<and> processedBlob f \<noteq> None)"

definition zipKey :: "ProcessingConfig \<Rightarrow> UploadedFile \<Rightarrow> string" where
  "zipKey config f = folderName config @ ''/'' @ fileName (originalName f) config"

section \<open>Example inputs\<close>

text \<open>A browser in which nothing fails and no watermark URL loads.\<close>

definition plainBrowser :: Browser where
  "plainBrowser =
     \<lparr>getContext2d = True, watermarkAt = (\<lambda>url. None), toBlob_ok = (\<lambda>w h. True),
      generateAsync_ok = True, saveAs_ok = True, now = 1700000000000\<rparr>"

text \<open>A 1600 x 900 photo, a 200 x 100 logo and an empty 800 x 600 canvas.\<close>

definition landscape :: HTMLImageElement where
  "landscape = \<lparr>img_width = 1600, img_height = 900, img_pixels = 1\<rparr>"

definition logo :: HTMLImageElement where
  "logo = \<lparr>img_width = 200, img_height = 100, img_pixels = 2\<rparr>"

definition canvas800 :: Canvas where
  "canvas800 = \<lparr>canvas_width = 800, canvas_height = 600, ops = []\<rparr>"

text \<open>What the two images encode to under the initial configuration.\<close>

definition landscapeBlob :: Blob where
  "landscapeBlob =
     \<lparr>blob_canvas = \<lparr>canvas_width = 800, canvas_height = 600,
                      ops = [FillWhite 0 0 800 600, DrawImageScaled landscape 0 75 800 450]\<rparr>,
      blob_format = JPG, blob_quality = 85 / 100\<rparr>"

definition logoBlob :: Blob where
  "logoBlob =
     \<lparr>blob_canvas = \<lparr>canvas_width = 800, canvas_height = 600,
                      ops = [FillWhite 0 0 800 600, DrawImageScaled logo 0 100 800 400]\<rparr>,
      blob_format = JPG, blob_quality = 85 / 100\<rparr>"

text \<open>Configurations: the watermark switched on, the tiled mode at scale 50, 300 x 300 PNG.\<close>

definition watermarkOn :: "ProcessingConfig \<Rightarrow> ProcessingConfig" where
  "watermarkOn config = config\<lparr>watermarkEnabled := True, watermarkImageUrl := Some ''data:image/png;base64,AAAA''\<rparr>"

definition tiledConfig :: ProcessingConfig where
  "tiledConfig = initialConfig\<lparr>watermarkMode := tiled, watermarkScale := 50\<rparr>"

definition photoConfig :: ProcessingConfig where
  "photoConfig = initialConfig\<lparr>width := 300, height := 300, format := PNG\<rparr>"

text \<open>
  An archive with two qualifying entries of the same base name in different folders, two
  directories and two entries of other extensions.
\<close>

definition sampleEntries :: "FileData JSZip" where
  "sampleEntries =
     [(''2023/'', Dir),
      (''2023/beach.JPG'', Entry (ImageBytes landscape)),
      (''2023/notes.txt'', Entry OtherBytes),
      (''2024/beach.JPG'', Entry (ImageBytes logo)),
      (''icons.png/'', Dir),
      (''thumbs.gif.bak'', Entry OtherBytes)]"

definition sampleZip :: File where
  "sampleZip =
     \<lparr>file_name = ''holiday.zip'', file_type = ''application/zip'',
      file_data = ZipBytes sampleEntries\<rparr>"

text \<open>The state of the component before any upload, and a pending queue item.\<close>

definition emptyState :: AppState where
  "emptyState = \<lparr>files = [], isProcessing = False, progress = 0, summary = None,
                  saved = [], alerts = [], nextId = 0\<rparr>"

definition pendingItem :: "nat \<Rightarrow> string \<Rightarrow> FileData \<Rightarrow> UploadedFile" where
  "pendingItem n name d = newUpload n \<lparr>file_name = name, file_type = ''image/png'', file_data = d\<rparr>"

text \<open>One decodable \<open>photo.png\<close> in the queue.\<close>

definition photoState :: AppState where
  "photoState = emptyState\<lparr>files := [pendingItem 0 ''photo.png'' (ImageBytes landscape)]\<rparr>"

text \<open>
  Three items in the queue: two decodable images and one file that does not decode. In
  the first queue the names of the two images differ in the extension only.
\<close>

definition clashState :: AppState where
  "clashState = emptyState\<lparr>files :=
     [pendingItem 0 ''a.png'' (ImageBytes landscape),
      pendingItem 1 ''a.jpg'' (ImageBytes logo),
      pendingItem 2 ''b.png'' OtherBytes]\<rparr>"

definition scenarioState :: AppState where
  "scenarioState = emptyState\<lparr>files :=
     [pendingItem 0 ''a.png'' (ImageBytes landscape),
      pendingItem 1 ''c.jpg'' (ImageBytes logo),
      pendingItem 2 ''b.png'' OtherBytes]\<rparr>"

text \<open>A browser in which nothing fails and every watermark URL loads the logo.\<close>

definition logoBrowser :: Browser where
  "logoBrowser = plainBrowser\<lparr>watermarkAt := (\<lambda>url. Some logo)\<rparr>"

text \<open>A 500 x 130 banner as the watermark image, tiled at scale 60.\<close>

definition banner :: HTMLImageElement where
  "banner = \<lparr>img_width = 500, img_height = 130, img_pixels = 3\<rparr>"

definition bannerConfig :: ProcessingConfig where
  "bannerConfig = initialConfig\<lparr>watermarkMode := tiled, watermarkScale := 60\<rparr>"

section \<open>The compositor\<close>

lemma drawBase_ops:
  "\<exists>base. isBaseDraw base \<and> ops (drawBase img config) = whiteFill config (drawBase img config) @ [base]"
  by (simp add: drawBase_def whiteFill_def shouldFillBackground_def Let_def)

lemma drawBase_size:
  "canvas_width (drawBase img config) = (if keepOriginalSize config then img_width img else width config)"
  "canvas_height (drawBase img config) = (if keepOriginalSize config then img_height img else height config)"
  by (simp_all add: drawBase_def Let_def)

lemma applyWatermark_Inr:
  "applyWatermark b config url canvas = Some (Inr c) \<Longrightarrow>
     canvas_width c = canvas_width canvas \<and> canvas_height c = canvas_height canvas \<and>
     (\<exists>wmImg cs. watermarkAt b url = Some wmImg \<and> watermarkCentres canvas config wmImg = Some cs \<and>
        ops c = ops canvas @ map (drawWM canvas config wmImg) cs)"
  by (auto simp: applyWatermark_def loadWatermarkImage_def split: option.splits sum.splits bind_splits)

text \<open>
  What a resolved composite holds: the base draw of the decoded image, then watermark
  draws only, encoded in the configured format and quality.
\<close>

lemma processImage_resolves:
  assumes "processImage b f config = Some (Inr blob)"
  shows "\<exists>img wms. loadImage (upload f) = Inr img \<and> getContext2d b \<and>
           canvas_width (blob_canvas blob) = canvas_width (drawBase img config) \<and>
           canvas_height (blob_canvas blob) = canvas_height (drawBase img config) \<and>
           ops (blob_canvas blob) = ops (drawBase img config) @ wms \<and>
           (\<forall>op \<in> set wms. isWatermarkDraw op) \<and>
           blob_format blob = format config \<and> blob_quality blob = quality config"
proof -
  from assms obtain img where img: "loadImage (upload f) = Inr img"
    by (auto simp: processImage_def split: sum.splits)
  from assms img have ctx: "getContext2d b"
    by (auto simp: processImage_def split: if_splits)
  let ?base = "drawBase img config"
  from assms img ctx obtain c where
    c: "(case watermarkRequested config of None \<Rightarrow> Some ?base
          | Some url \<Rightarrow> (case applyWatermark b config url ?base of None \<Rightarrow> None
               | Some (Inl e) \<Rightarrow> Some ?base | Some (Inr c) \<Rightarrow> Some c)) = Some c"
    and blob: "blob = \<lparr>blob_canvas = c, blob_format = format config, blob_quality = quality config\<rparr>"
    by (auto simp: processImage_def Let_def split: bind_splits if_splits)
  from c have "canvas_width c = canvas_width ?base \<and> canvas_height c = canvas_height ?base \<and>
     (\<exists>wms. ops c = ops ?base @ wms \<and> (\<forall>op \<in> set wms. isWatermarkDraw op))"
    by (auto simp: drawWM_def split: option.splits sum.splits dest!: applyWatermark_Inr)
  with img ctx blob show ?thesis by auto
qed

text \<open>The composite of a decodable image without a watermark, in a browser where nothing fails.\<close>

lemma processImage_plain:
  assumes "file_data (upload f) = ImageBytes img" "watermarkRequested config = None"
  shows "processImage plainBrowser f config =
           Some (Inr \<lparr>blob_canvas = drawBase img config, blob_format = format config,
                      blob_quality = quality config\<rparr>)"
  using assms by (simp add: processImage_def loadImage_def plainBrowser_def Let_def)

text \<open>
  C7. Whenever a composite resolves, the calls on its canvas are: the white fill of the
  whole canvas, first, exactly if the format is JPEG or \<open>fillBackground\<close> is set; then the
  base draw; then watermark draws only. Without the fill nothing paints the background.
\<close>

theorem C7_white_fill:
  assumes "processImage b f config = Some (Inr blob)"
  shows "\<exists>base wms. isBaseDraw base \<and> (\<forall>op \<in> set wms. isWatermarkDraw op) \<and>
           ops (blob_canvas blob) =
             (if format config = JPG \<or> fillBackground config
              then [FillWhite 0 0 (real (canvas_width (blob_canvas blob)))
                                  (real (canvas_height (blob_canvas blob)))]
              else []) @ base # wms"
proof -
  from processImage_resolves [OF assms] obtain img wms where
    w: "canvas_width (blob_canvas blob) = canvas_width (drawBase img config)"
    and h: "canvas_height (blob_canvas blob) = canvas_height (drawBase img config)"
    and o: "ops (blob_canvas blob) = ops (drawBase img config) @ wms"
    and wm: "\<forall>op \<in> set wms. isWatermarkDraw op"
    by blast
  from drawBase_ops [of img config] obtain base where
    "isBaseDraw base" "ops (drawBase img config) = whiteFill config (drawBase img config) @ [base]"
    by blast
  with w h o wm show ?thesis
    by (auto simp: whiteFill_def)
qed

theorem C7_white_fill_witness:
  "processImage plainBrowser (pendingItem 0 ''a.png'' (ImageBytes landscape)) (initialConfig\<lparr>format := PNG\<rparr>)
     = Some (Inr \<lparr>blob_canvas = \<lparr>canvas_width = 800, canvas_height = 600,
                                    ops = [DrawImageScaled landscape 0 75 800 450]\<rparr>,
                     blob_format = PNG, blob_quality = 85 / 100\<rparr>)
   \<and> (\<exists>base wms. isBaseDraw base \<and> (\<forall>op \<in> set wms. isWatermarkDraw op) \<and>
          [DrawImageScaled landscape 0 75 800 450] = base # wms)"
proof -
  have h: "processImage plainBrowser (pendingItem 0 ''a.png'' (ImageBytes landscape)) (initialConfig\<lparr>format := PNG\<rparr>)
     = Some (Inr \<lparr>blob_canvas = \<lparr>canvas_width = 800, canvas_height = 600,
                                    ops = [DrawImageScaled landscape 0 75 800 450]\<rparr>,
                     blob_format = PNG, blob_quality = 85 / 100\<rparr>)"
    by (simp add: processImage_plain [where img = landscape] pendingItem_def newUpload_def
          watermarkRequested_def initialConfig_def drawBase_def baseRect_def landscape_def
          shouldFillBackground_def Let_def)
  from C7_white_fill [OF h] show ?thesis
    using h by (simp add: initialConfig_def)
qed

text \<open>
  C1, as stated, fails. With \<open>keepOriginalSize = false\<close> the base draw does not cover the
  canvas: the 1600 x 900 source under the initial configuration (800 x 600, JPEG) is
  drawn 800 x 450 at (0, 75), after the white fill. Its height stays below 600, and it is
  not the 1066.7 x 600 draw at offsetX -133.3.
\<close>

theorem C1_cover_counterexample:
  "processImage plainBrowser (pendingItem 0 ''a.png'' (ImageBytes landscape)) initialConfig
     = Some (Inr \<lparr>blob_canvas = \<lparr>canvas_width = 800, canvas_height = 600,
                     ops = [FillWhite 0 0 800 600, DrawImageScaled landscape 0 75 800 450]\<rparr>,
                   blob_format = JPG, blob_quality = 85 / 100\<rparr>)
   \<and> \<not> keepOriginalSize initialConfig
   \<and> drawHeight (baseRect landscape initialConfig) < real (height initialConfig)
   \<and> \<not> (drawHeight (baseRect landscape initialConfig) = 600
        \<and> \<bar>drawWidth (baseRect landscape initialConfig) - 10667 / 10\<bar> < 1 / 10
        \<and> \<bar>offsetX (baseRect landscape initialConfig) + 1333 / 10\<bar> < 1 / 10)"
  by (simp add: processImage_plain [where img = landscape] pendingItem_def newUpload_def
        watermarkRequested_def initialConfig_def drawBase_def baseRect_def landscape_def
        shouldFillBackground_def Let_def)

text \<open>
  C1, amended. With \<open>keepOriginalSize = false\<close> and positive sizes, the base draw scales
  the image to fit inside the \<open>config.width x config.height\<close> canvas: the aspect ratio is
  kept, neither side exceeds the canvas, the rectangle is centred on both axes, and a
  source wider than the target (relative to it) fills the width, any other fills the
  height. The white fill, when there is one, comes first.
\<close>

theorem C1_fit_inside:
  assumes "\<not> keepOriginalSize config"
    and "0 < img_width img" "0 < img_height img" "0 < width config" "0 < height config"
  shows "ops (drawBase img config) =
           whiteFill config (drawBase img config) @
           [DrawImageScaled img (offsetX (baseRect img config)) (offsetY (baseRect img config))
              (drawWidth (baseRect img config)) (drawHeight (baseRect img config))]
     \<and> drawWidth (baseRect img config) * real (img_height img)
         = drawHeight (baseRect img config) * real (img_width img)
     \<and> drawWidth (baseRect img config) \<le> real (width config)
     \<and> drawHeight (baseRect img config) \<le> real (height config)
     \<and> offsetX (baseRect img config) = (real (width config) - drawWidth (baseRect img config)) / 2
     \<and> offsetY (baseRect img config) = (real (height config) - drawHeight (baseRect img config)) / 2
     \<and> (if real (img_width img) / real (img_height img) > real (width config) / real (height config)
         then drawWidth (baseRect img config) = real (width config)
         else drawHeight (baseRect img config) = real (height config))"
proof -
  let ?iw = "real (img_width img)" and ?ih = "real (img_height img)"
  let ?W = "real (width config)" and ?H = "real (height config)"
  have pos: "0 < ?iw" "0 < ?ih" "0 < ?W" "0 < ?H" using assms by simp_all
  have ops: "ops (drawBase img config) =
           whiteFill config (drawBase img config) @
           [DrawImageScaled img (offsetX (baseRect img config)) (offsetY (baseRect img config))
              (drawWidth (baseRect img config)) (drawHeight (baseRect img config))]"
    using assms(1) by (simp add: drawBase_def whiteFill_def shouldFillBackground_def Let_def)
  show ?thesis
  proof (cases "?iw / ?ih > ?W / ?H")
    case True
    then have r: "baseRect img config =
        \<lparr>offsetX = 0, offsetY = (?H - ?ih * (?W / ?iw)) / 2, drawWidth = ?W, drawHeight = ?ih * (?W / ?iw)\<rparr>"
      by (simp add: baseRect_def Let_def)
    from True pos have "?W * ?ih < ?iw * ?H"
      by (simp add: field_simps)
    then have "?ih * (?W / ?iw) \<le> ?H" using pos
      by (simp add: field_simps)
    with ops r True pos show ?thesis by simp
  next
    case False
    then have r: "baseRect img config =
        \<lparr>offsetX = (?W - ?iw * (?H / ?ih)) / 2, offsetY = 0, drawWidth = ?iw * (?H / ?ih), drawHeight = ?H\<rparr>"
      by (simp add: baseRect_def Let_def)
    from False pos have "?iw * ?H \<le> ?W * ?ih"
      by (simp add: field_simps not_less)
    then have "?iw * (?H / ?ih) \<le> ?W" using pos
      by (simp add: field_simps)
    with ops r False pos show ?thesis by simp
  qed
qed

theorem C1_fit_inside_witness:
  "\<not> keepOriginalSize initialConfig \<and> 0 < img_width landscape \<and> 0 < img_height landscape
   \<and> 0 < width initialConfig \<and> 0 < height initialConfig
   \<and> ops (drawBase landscape initialConfig)
       = [FillWhite 0 0 800 600, DrawImageScaled landscape 0 75 800 450]
   \<and> baseRect landscape initialConfig
       = \<lparr>offsetX = 0, offsetY = 75, drawWidth = 800, drawHeight = 450\<rparr>"
proof -
  have h: "\<not> keepOriginalSize initialConfig" "0 < img_width landscape" "0 < img_height landscape"
    "0 < width initialConfig" "0 < height initialConfig"
    by (simp_all add: initialConfig_def landscape_def)
  have r: "baseRect landscape initialConfig
       = \<lparr>offsetX = 0, offsetY = 75, drawWidth = 800, drawHeight = 450\<rparr>"
    by (simp add: baseRect_def initialConfig_def landscape_def Let_def)
  have f: "whiteFill initialConfig (drawBase landscape initialConfig) = [FillWhite 0 0 800 600]"
    by (simp add: whiteFill_def drawBase_def initialConfig_def Let_def)
  from C1_fit_inside [OF h] show ?thesis
    using h r f by simp
qed

lemma processImage_watermarked:
  assumes "loadImage (upload f) = Inr img" "getContext2d b"
    and "watermarkRequested config = Some url" "watermarkAt b url = Some wmImg"
    and "watermarkCentres (drawBase img config) config wmImg = Some cs"
    and "toBlob_ok b (canvas_width (drawBase img config)) (canvas_height (drawBase img config))"
  shows "processImage b f config =
           Some (Inr \<lparr>blob_canvas = (drawBase img config)
                        \<lparr>ops := ops (drawBase img config) @ map (drawWM (drawBase img config) config wmImg) cs\<rparr>,
                      blob_format = format config, blob_quality = quality config\<rparr>)"
  using assms
  by (simp add: processImage_def applyWatermark_def loadWatermarkImage_def Let_def)

lemma drawBase_mode:
  "drawBase img (config\<lparr>watermarkMode := m\<rparr>) = drawBase img config"
  by (simp add: drawBase_def baseRect_def shouldFillBackground_def Let_def)

text \<open>
  C6. Whenever an upload decodes, the watermark is requested and its image loads with a
  positive size, on every canvas and under every configuration: in the dual mode the composite is the base draw
  followed by exactly two \<open>drawWM\<close> instances, whose centres have the canvas centre as
  their midpoint; in the triple mode it is the base draw followed by exactly three, the
  same two corner instances with one at \<open>(canvas.width / 2, canvas.height / 2)\<close> between
  them. The first corner instance has its centre half its size plus the padding away from
  the top left corner, and every instance is the loaded watermark image at the rendered
  size, under the configured rotation, opacity and colour filter.
\<close>

theorem C6_dual_triple:
  assumes "loadImage (upload f) = Inr img" "getContext2d b"
    and "watermarkRequested config = Some url" "watermarkAt b url = Some wmImg"
    and "toBlob_ok b (canvas_width (drawBase img config)) (canvas_height (drawBase img config))"
    and "0 < img_width wmImg" "0 < img_height wmImg"
  shows "\<exists>p m q.
     processImage b f (config\<lparr>watermarkMode := dual\<rparr>) =
       Some (Inr \<lparr>blob_canvas = (drawBase img config)
                    \<lparr>ops := ops (drawBase img config) @ [DrawWatermark wmImg p, DrawWatermark wmImg q]\<rparr>,
                  blob_format = format config, blob_quality = quality config\<rparr>)
     \<and> processImage b f (config\<lparr>watermarkMode := triple\<rparr>) =
       Some (Inr \<lparr>blob_canvas = (drawBase img config)
                    \<lparr>ops := ops (drawBase img config)
                       @ [DrawWatermark wmImg p, DrawWatermark wmImg m, DrawWatermark wmImg q]\<rparr>,
                  blob_format = format config, blob_quality = quality config\<rparr>)
     \<and> (centerX p + centerX q) / 2 = real (canvas_width (drawBase img config)) / 2
     \<and> (centerY p + centerY q) / 2 = real (canvas_height (drawBase img config)) / 2
     \<and> centerX m = real (canvas_width (drawBase img config)) / 2
     \<and> centerY m = real (canvas_height (drawBase img config)) / 2
     \<and> centerX p = padding (drawBase img config) + wmDrawWidth p / 2
     \<and> centerY p = padding (drawBase img config) + wmDrawHeight p / 2
     \<and> (\<forall>i \<in> {p, m, q}.
           wmDrawWidth i = real (canvas_width (drawBase img config)) * (watermarkScale config / 100)
         \<and> wmDrawHeight i = wmDrawWidth i / (real (img_width wmImg) / real (img_height wmImg))
         \<and> rotationDegrees i = watermarkRotation config
         \<and> opacity i = watermarkOpacity config
         \<and> colorFilter i = watermarkColorMode config)"
proof -
  let ?c = "drawBase img config"
  let ?d = "config\<lparr>watermarkMode := dual\<rparr>" and ?t = "config\<lparr>watermarkMode := triple\<rparr>"
  let ?W = "real (canvas_width ?c)" and ?H = "real (canvas_height ?c)"
  let ?w = "?W * (watermarkScale config / 100)"
  let ?h = "?w / (real (img_width wmImg) / real (img_height wmImg))"
  let ?at = "\<lambda>x y. \<lparr>centerX = x, centerY = y, wmDrawWidth = ?w, wmDrawHeight = ?h,
                    rotationDegrees = watermarkRotation config, opacity = watermarkOpacity config,
                    colorFilter = watermarkColorMode config\<rparr>"
  let ?p = "?at (padding ?c + ?w / 2) (padding ?c + ?h / 2)"
  let ?m = "?at (?W / 2) (?H / 2)"
  let ?q = "?at (?W - padding ?c - ?w / 2) (?H - padding ?c - ?h / 2)"
  have "watermarkRequested (config\<lparr>watermarkMode := k\<rparr>) = watermarkRequested config" for k
    by (simp add: watermarkRequested_def)
  with assms(3) have rq: "watermarkRequested ?d = Some url" "watermarkRequested ?t = Some url"
    by simp_all
  have cd: "watermarkCentres (drawBase img ?d) ?d wmImg =
              Some [(padding ?c + ?w / 2, padding ?c + ?h / 2),
                    (?W - padding ?c - ?w / 2, ?H - padding ?c - ?h / 2)]"
    by (simp add: drawBase_mode watermarkCentres_def positions_def Let_def halfW_def halfH_def
          targetWmWidth_def targetWmHeight_def wmAspectRatio_def)
  have ct: "watermarkCentres (drawBase img ?t) ?t wmImg =
              Some [(padding ?c + ?w / 2, padding ?c + ?h / 2), (?W / 2, ?H / 2),
                    (?W - padding ?c - ?w / 2, ?H - padding ?c - ?h / 2)]"
    by (simp add: drawBase_mode watermarkCentres_def positions_def Let_def halfW_def halfH_def
          targetWmWidth_def targetWmHeight_def wmAspectRatio_def)
  have td: "toBlob_ok b (canvas_width (drawBase img ?d)) (canvas_height (drawBase img ?d))"
    and tt: "toBlob_ok b (canvas_width (drawBase img ?t)) (canvas_height (drawBase img ?t))"
    using assms(5) by (simp_all only: drawBase_mode)
  have d: "processImage b f ?d =
       Some (Inr \<lparr>blob_canvas = ?c\<lparr>ops := ops ?c @ [DrawWatermark wmImg ?p, DrawWatermark wmImg ?q]\<rparr>,
                  blob_format = format config, blob_quality = quality config\<rparr>)"
    by (simp add: processImage_watermarked [OF assms(1,2) rq(1) assms(4) cd td] drawBase_mode
          drawWM_def targetWmWidth_def targetWmHeight_def wmAspectRatio_def)
  have t: "processImage b f ?t =
       Some (Inr \<lparr>blob_canvas = ?c\<lparr>ops := ops ?c
                      @ [DrawWatermark wmImg ?p, DrawWatermark wmImg ?m, DrawWatermark wmImg ?q]\<rparr>,
                  blob_format = format config, blob_quality = quality config\<rparr>)"
    by (simp add: processImage_watermarked [OF assms(1,2) rq(2) assms(4) ct tt] drawBase_mode
          drawWM_def targetWmWidth_def targetWmHeight_def wmAspectRatio_def)
  show ?thesis
    apply (rule exI [of _ ?p], rule exI [of _ ?m], rule exI [of _ ?q])
    apply (intro conjI)
            apply (rule d)
           apply (rule t)
          apply simp_all
    done
qed

theorem C6_dual_triple_witness:
  "loadImage (upload (pendingItem 0 ''a.png'' (ImageBytes landscape))) = Inr landscape
   \<and> getContext2d logoBrowser
   \<and> watermarkRequested (watermarkOn initialConfig) = Some ''data:image/png;base64,AAAA''
   \<and> watermarkAt logoBrowser ''data:image/png;base64,AAAA'' = Some logo
   \<and> toBlob_ok logoBrowser (canvas_width (drawBase landscape (watermarkOn initialConfig)))
        (canvas_height (drawBase landscape (watermarkOn initialConfig)))
   \<and> 0 < img_width logo \<and> 0 < img_height logo
   \<and> (\<exists>p m q.
        processImage logoBrowser (pendingItem 0 ''a.png'' (ImageBytes landscape))
            (watermarkOn initialConfig\<lparr>watermarkMode := dual\<rparr>) =
          Some (Inr \<lparr>blob_canvas = \<lparr>canvas_width = 800, canvas_height = 600,
                        ops = [FillWhite 0 0 800 600, DrawImageScaled landscape 0 75 800 450,
                               DrawWatermark logo p, DrawWatermark logo q]\<rparr>,
                      blob_format = JPG, blob_quality = 85 / 100\<rparr>)
        \<and> processImage logoBrowser (pendingItem 0 ''a.png'' (ImageBytes landscape))
            (watermarkOn initialConfig\<lparr>watermarkMode := triple\<rparr>) =
          Some (Inr \<lparr>blob_canvas = \<lparr>canvas_width = 800, canvas_height = 600,
                        ops = [FillWhite 0 0 800 600, DrawImageScaled landscape 0 75 800 450,
                               DrawWatermark logo p, DrawWatermark logo m, DrawWatermark logo q]\<rparr>,
                      blob_format = JPG, blob_quality = 85 / 100\<rparr>)
        \<and> (centerX p, centerY p) = (104, 64) \<and> (centerX m, centerY m) = (400, 300)
        \<and> (centerX q, centerY q) = (696, 536)
        \<and> (\<forall>i \<in> {p, m, q}. wmDrawWidth i = 160 \<and> wmDrawHeight i = 80 \<and> rotationDegrees i = 0
              \<and> opacity i = 8 / 10 \<and> colorFilter i = original))"
proof -
  let ?f = "pendingItem 0 ''a.png'' (ImageBytes landscape)"
  let ?u = "''data:image/png;base64,AAAA''"
  have c: "drawBase landscape (watermarkOn initialConfig)
       = \<lparr>canvas_width = 800, canvas_height = 600,
          ops = [FillWhite 0 0 800 600, DrawImageScaled landscape 0 75 800 450]\<rparr>"
    by (simp add: drawBase_def baseRect_def shouldFillBackground_def watermarkOn_def
          initialConfig_def landscape_def Let_def)
  have h1: "loadImage (upload ?f) = Inr landscape"
    by (simp add: loadImage_def pendingItem_def newUpload_def)
  have h2: "getContext2d logoBrowser" by (simp add: logoBrowser_def plainBrowser_def)
  have h3: "watermarkRequested (watermarkOn initialConfig) = Some ?u"
    by (simp add: watermarkRequested_def watermarkOn_def)
  have h4: "watermarkAt logoBrowser ?u = Some logo" by (simp add: logoBrowser_def)
  have h5: "toBlob_ok logoBrowser (canvas_width (drawBase landscape (watermarkOn initialConfig)))
        (canvas_height (drawBase landscape (watermarkOn initialConfig)))"
    by (simp add: logoBrowser_def plainBrowser_def)
  have h6: "0 < img_width logo" and h7: "0 < img_height logo" by (simp_all add: logo_def)
  have v: "format (watermarkOn initialConfig) = JPG" "quality (watermarkOn initialConfig) = 85 / 100"
    "watermarkScale (watermarkOn initialConfig) = 20" "watermarkRotation (watermarkOn initialConfig) = 0"
    "watermarkOpacity (watermarkOn initialConfig) = 8 / 10"
    "watermarkColorMode (watermarkOn initialConfig) = original"
    "real (img_width logo) = 200" "real (img_height logo) = 100"
    by (simp_all add: watermarkOn_def initialConfig_def logo_def)
  have pd: "padding \<lparr>canvas_width = 800, canvas_height = 600,
          ops = [FillWhite 0 0 800 600, DrawImageScaled landscape 0 75 800 450]\<rparr> = 24"
    by (simp add: padding_def)
  note r = C6_dual_triple [OF h1 h2 h3 h4 h5 h6 h7, unfolded c v pd, simplified]
  from r have "\<exists>p m q.
        processImage logoBrowser (pendingItem 0 ''a.png'' (ImageBytes landscape))
            (watermarkOn initialConfig\<lparr>watermarkMode := dual\<rparr>) =
          Some (Inr \<lparr>blob_canvas = \<lparr>canvas_width = 800, canvas_height = 600,
                        ops = [FillWhite 0 0 800 600, DrawImageScaled landscape 0 75 800 450,
                               DrawWatermark logo p, DrawWatermark logo q]\<rparr>,
                      blob_format = JPG, blob_quality = 85 / 100\<rparr>)
        \<and> processImage logoBrowser (pendingItem 0 ''a.png'' (ImageBytes landscape))
            (watermarkOn initialConfig\<lparr>watermarkMode := triple\<rparr>) =
          Some (Inr \<lparr>blob_canvas = \<lparr>canvas_width = 800, canvas_height = 600,
                        ops = [FillWhite 0 0 800 600, DrawImageScaled landscape 0 75 800 450,
                               DrawWatermark logo p, DrawWatermark logo m, DrawWatermark logo q]\<rparr>,
                      blob_format = JPG, blob_quality = 85 / 100\<rparr>)
        \<and> (centerX p, centerY p) = (104, 64) \<and> (centerX m, centerY m) = (400, 300)
        \<and> (centerX q, centerY q) = (696, 536)
        \<and> (\<forall>i \<in> {p, m, q}. wmDrawWidth i = 160 \<and> wmDrawHeight i = 80 \<and> rotationDegrees i = 0
              \<and> opacity i = 8 / 10 \<and> colorFilter i = original)"
    apply (elim exE conjE)
    subgoal for p m q
      apply (rule exI [of _ p], rule exI [of _ m], rule exI [of _ q])
      apply simp
      done
    done
  with h1 h2 h3 h4 h5 h6 h7 show ?thesis by (intro conjI)
qed

lemma applyWatermark_load_fails:
  "watermarkAt b url = None \<Longrightarrow> applyWatermark b config url canvas = Some (Inl DecodeError)"
  by (simp add: applyWatermark_def loadWatermarkImage_def)

text \<open>
  C4. When the watermark is requested and the \<open>try\<close> block fails, whatever the failure,
  the composite is the one of the same configuration with the watermark switched off:
  the base draw alone, encoded as configured. It resolves whenever \<open>toBlob\<close> delivers.
\<close>

theorem C4_watermark_failure_swallowed:
  assumes "loadImage (upload f) = Inr img" "getContext2d b"
    and "watermarkRequested config = Some url"
    and "applyWatermark b config url (drawBase img config) = Some (Inl e)"
  shows "processImage b f config = processImage b f (config\<lparr>watermarkEnabled := False\<rparr>)
     \<and> processImage b f config =
         Some (if toBlob_ok b (canvas_width (drawBase img config)) (canvas_height (drawBase img config))
               then Inr \<lparr>blob_canvas = drawBase img config, blob_format = format config,
                         blob_quality = quality config\<rparr>
               else Inl CanvasToBlobFailed)"
proof -
  have base: "drawBase img (config\<lparr>watermarkEnabled := False\<rparr>) = drawBase img config"
    by (simp add: drawBase_def baseRect_def shouldFillBackground_def Let_def)
  have off: "watermarkRequested (config\<lparr>watermarkEnabled := False\<rparr>) = None"
    by (simp add: watermarkRequested_def)
  show ?thesis
    using assms by (simp add: processImage_def Let_def base off)
qed



theorem C4_watermark_failure_swallowed_witness:
  "loadImage (upload (pendingItem 0 ''a.png'' (ImageBytes landscape))) = Inr landscape
   \<and> getContext2d plainBrowser
   \<and> watermarkRequested (watermarkOn initialConfig) = Some ''data:image/png;base64,AAAA''
   \<and> applyWatermark plainBrowser (watermarkOn initialConfig) ''data:image/png;base64,AAAA''
         (drawBase landscape (watermarkOn initialConfig)) = Some (Inl DecodeError)
   \<and> processImage plainBrowser (pendingItem 0 ''a.png'' (ImageBytes landscape)) (watermarkOn initialConfig)
       = Some (Inr \<lparr>blob_canvas = \<lparr>canvas_width = 800, canvas_height = 600,
                       ops = [FillWhite 0 0 800 600, DrawImageScaled landscape 0 75 800 450]\<rparr>,
                     blob_format = JPG, blob_quality = 85 / 100\<rparr>)"
proof -
  have h1: "loadImage (upload (pendingItem 0 ''a.png'' (ImageBytes landscape))) = Inr landscape"
    by (simp add: loadImage_def pendingItem_def newUpload_def)
  have h2: "getContext2d plainBrowser" by (simp add: plainBrowser_def)
  have h3: "watermarkRequested (watermarkOn initialConfig) = Some ''data:image/png;base64,AAAA''"
    by (simp add: watermarkRequested_def watermarkOn_def)
  have h4: "applyWatermark plainBrowser (watermarkOn initialConfig) ''data:image/png;base64,AAAA''
         (drawBase landscape (watermarkOn initialConfig)) = Some (Inl DecodeError)"
    by (simp add: applyWatermark_load_fails plainBrowser_def)
  have c: "drawBase landscape (watermarkOn initialConfig)
       = \<lparr>canvas_width = 800, canvas_height = 600,
          ops = [FillWhite 0 0 800 600, DrawImageScaled landscape 0 75 800 450]\<rparr>"
    by (simp add: drawBase_def baseRect_def shouldFillBackground_def watermarkOn_def
          initialConfig_def landscape_def Let_def)
  have t: "toBlob_ok plainBrowser 800 600" by (simp add: plainBrowser_def)
  have fq: "format (watermarkOn initialConfig) = JPG" "quality (watermarkOn initialConfig) = 85 / 100"
    by (simp_all add: watermarkOn_def initialConfig_def)
  note r = C4_watermark_failure_swallowed [OF h1 h2 h3 h4, THEN conjunct2]
  have "processImage plainBrowser (pendingItem 0 ''a.png'' (ImageBytes landscape)) (watermarkOn initialConfig)
       = Some (Inr \<lparr>blob_canvas = \<lparr>canvas_width = 800, canvas_height = 600,
                       ops = [FillWhite 0 0 800 600, DrawImageScaled landscape 0 75 800 450]\<rparr>,
                     blob_format = JPG, blob_quality = 85 / 100\<rparr>)"
    by (simp add: r c t fq)
  with h1 h2 h3 h4 show ?thesis by blast
qed

section \<open>Rounding\<close>

lemma roundTiesToEven_of_int: "roundTiesToEven (of_int n) = n"
  by (simp add: roundTiesToEven_def)

lemma roundTiesToEven_floor:
  "\<lfloor>x\<rfloor> \<le> roundTiesToEven x" "roundTiesToEven x \<le> \<lfloor>x\<rfloor> + 1"
  by (simp_all add: roundTiesToEven_def Let_def)

lemma roundTiesToEven_mono:
  assumes "x \<le> y"
  shows "roundTiesToEven x \<le> roundTiesToEven y"
proof (cases "\<lfloor>x\<rfloor> = \<lfloor>y\<rfloor>")
  case True
  with assms show ?thesis
    by (auto simp: roundTiesToEven_def Let_def)
next
  case False
  with floor_mono [OF assms] have "\<lfloor>x\<rfloor> + 1 \<le> \<lfloor>y\<rfloor>" by linarith
  with roundTiesToEven_floor(2) [of x] roundTiesToEven_floor(1) [of y] show ?thesis
    by linarith
qed

lemma roundTiesToEven_minus: "roundTiesToEven (- x) = - roundTiesToEven x"
proof (cases "x = of_int \<lfloor>x\<rfloor>")
  case True
  then have "- x = of_int (- \<lfloor>x\<rfloor>)" by simp
  then have "roundTiesToEven (- x) = - \<lfloor>x\<rfloor>"
    by (simp only: roundTiesToEven_of_int)
  moreover from True have "roundTiesToEven x = \<lfloor>x\<rfloor>"
    by (metis roundTiesToEven_of_int)
  ultimately show ?thesis by simp
next
  case False
  then have f: "\<lfloor>- x\<rfloor> = - \<lfloor>x\<rfloor> - 1"
    by (simp add: floor_minus ceiling_altdef)
  show ?thesis
    unfolding roundTiesToEven_def Let_def f by auto
qed

lemma binade_bounds:
  assumes "x \<noteq> 0"
  shows "2 powi binade x \<le> \<bar>x\<bar>" and "\<bar>x\<bar> < 2 powi (binade x + 1)"
proof -
  have "2 powi binade x \<le> \<bar>x\<bar> \<and> \<bar>x\<bar> < 2 powi (binade x + 1)"
  proof (cases "1 \<le> \<bar>x\<bar>")
    case True
    let ?n = "nat \<lfloor>\<bar>x\<bar>\<rfloor>"
    let ?k = "floorlog 2 ?n"
    from True have n: "0 < ?n" by simp
    from floorlog_bounds [OF n, of 2] have lo: "2 ^ (?k - 1) \<le> ?n" and hi: "?n < 2 ^ ?k" by simp_all
    from n have k: "0 < ?k" by (simp add: floorlog_def)
    from True have b: "binade x = int (?k - 1)" using k by (simp add: binade_def)
    have "real ?n \<le> \<bar>x\<bar>" using True by simp
    moreover from lo have "(2::real) ^ (?k - 1) \<le> real ?n"
      by (metis of_nat_le_iff of_nat_numeral of_nat_power)
    ultimately have "(2::real) ^ (?k - 1) \<le> \<bar>x\<bar>" by (rule order_trans [rotated])
    moreover have "(2::real) powi binade x = 2 ^ (?k - 1)" by (simp only: b power_int_of_nat)
    ultimately have 1: "2 powi binade x \<le> \<bar>x\<bar>" by (simp only:)
    from hi have "Suc ?n \<le> 2 ^ ?k" by (rule Suc_leI)
    then have "real (Suc ?n) \<le> real (2 ^ ?k)" by (simp only: of_nat_le_iff)
    then have "1 + real ?n \<le> 2 ^ ?k" by (simp only: of_nat_Suc of_nat_power of_nat_numeral)
    moreover have "\<bar>x\<bar> < real ?n + 1" using True by linarith
    ultimately have "\<bar>x\<bar> < 2 ^ ?k" by linarith
    moreover have "binade x + 1 = int ?k" using b k by simp
    then have "(2::real) powi (binade x + 1) = 2 ^ ?k" by (simp only: power_int_of_nat)
    ultimately have 2: "\<bar>x\<bar> < 2 powi (binade x + 1)" by (simp only:)
    from 1 2 show ?thesis ..
  next
    case False
    with assms have x: "0 < \<bar>x\<bar>" "\<bar>x\<bar> < 1" by simp_all
    let ?r = "1 / \<bar>x\<bar>"
    let ?m = "nat (\<lceil>?r\<rceil> - 1)"
    let ?k = "floorlog 2 ?m"
    from x have r: "1 < ?r" by simp
    then have c: "2 \<le> \<lceil>?r\<rceil>" by linarith
    then have m: "0 < ?m" by simp
    from floorlog_bounds [OF m, of 2] have lo: "2 ^ (?k - 1) \<le> ?m" and hi: "?m < 2 ^ ?k" by simp_all
    from m have k: "0 < ?k" by (simp add: floorlog_def)
    from False have b: "binade x = - int ?k" by (simp add: binade_def)
    from c have "0 \<le> \<lceil>?r\<rceil> - 1" by linarith
    then have "real ?m = of_int (\<lceil>?r\<rceil> - 1)" by (rule of_nat_nat)
    then have mr: "real ?m = of_int \<lceil>?r\<rceil> - 1" by (simp only: of_int_diff of_int_1)
    from hi have "Suc ?m \<le> 2 ^ ?k" by (rule Suc_leI)
    then have "real (Suc ?m) \<le> real (2 ^ ?k)" by (simp only: of_nat_le_iff)
    then have "1 + real ?m \<le> 2 ^ ?k" by (simp only: of_nat_Suc of_nat_power of_nat_numeral)
    with mr have "?r \<le> 2 ^ ?k" by linarith
    with x have "1 / 2 ^ ?k \<le> \<bar>x\<bar>"
      by (simp add: field_simps)
    then have 1: "2 powi binade x \<le> \<bar>x\<bar>"
      by (simp add: b power_int_minus_divide)
    from lo have "(2::real) ^ (?k - 1) \<le> real ?m"
      by (metis of_nat_le_iff of_nat_numeral of_nat_power)
    with mr have "2 ^ (?k - 1) < ?r" by linarith
    with x have "\<bar>x\<bar> < 1 / 2 ^ (?k - 1)"
      by (simp add: field_simps)
    moreover have "binade x + 1 = - int (?k - 1)" using b k by simp
    ultimately have 2: "\<bar>x\<bar> < 2 powi (binade x + 1)"
      by (simp add: power_int_minus_divide)
    from 1 2 show ?thesis ..
  qed
  then show "2 powi binade x \<le> \<bar>x\<bar>" and "\<bar>x\<bar> < 2 powi (binade x + 1)" by simp_all
qed

lemma binade_unique:
  assumes "x \<noteq> 0" "2 powi e \<le> \<bar>x\<bar>" "\<bar>x\<bar> < 2 powi (e + 1)"
  shows "binade x = e"
proof -
  have inc: "n \<le> N \<Longrightarrow> (2::real) powi n \<le> 2 powi N" for n N :: int
    by (rule power_int_increasing) simp_all
  have "e \<le> binade x"
  proof (rule ccontr)
    assume "\<not> e \<le> binade x"
    then have "binade x + 1 \<le> e" by simp
    from inc [OF this] binade_bounds(2) [OF assms(1)] assms(2) show False by linarith
  qed
  moreover have "binade x \<le> e"
  proof (rule ccontr)
    assume "\<not> binade x \<le> e"
    then have "e + 1 \<le> binade x" by simp
    from inc [OF this] binade_bounds(1) [OF assms(1)] assms(3) show False by linarith
  qed
  ultimately show ?thesis by simp
qed

lemma binade_minus: "binade (- x) = binade x"
  by (simp add: binade_def)

lemma double_0: "double 0 = 0"
  by (simp add: double_def)

lemma double_minus: "double (- x) = - double x"
  by (simp add: double_def binade_minus roundTiesToEven_minus)

lemma double_bounds:
  assumes "0 < x"
  shows "2 powi binade x \<le> double x" and "double x \<le> 2 powi (binade x + 1)"
proof -
  let ?e = "binade x"
  let ?u = "(2::real) powi (?e - 52)"
  from assms have x: "x \<noteq> 0" "\<bar>x\<bar> = x" by simp_all
  have u: "0 < ?u" by simp
  have lo: "2 powi ?e = 2 ^ 52 * ?u" and hi: "2 powi (?e + 1) = 2 ^ 53 * ?u"
    by (simp_all add: power_int_diff power_int_add)
  from binade_bounds [OF x(1)] have "2 powi ?e \<le> x" "x \<le> 2 powi (?e + 1)"
    unfolding x(2) by simp_all
  then have "2 ^ 52 * ?u \<le> x" "x \<le> 2 ^ 53 * ?u"
    unfolding lo hi .
  with u have "of_int (2 ^ 52) \<le> x / ?u" "x / ?u \<le> of_int (2 ^ 53)"
    by (simp_all add: field_simps)
  from roundTiesToEven_mono [OF this(1)] roundTiesToEven_mono [OF this(2)]
  have "2 ^ 52 \<le> roundTiesToEven (x / ?u)" "roundTiesToEven (x / ?u) \<le> 2 ^ 53"
    by (simp_all only: roundTiesToEven_of_int)
  then have "(2::real) ^ 52 \<le> of_int (roundTiesToEven (x / ?u))"
    "of_int (roundTiesToEven (x / ?u)) \<le> (2::real) ^ 53"
    by (metis of_int_le_iff of_int_numeral of_int_power)+
  with u have "2 ^ 52 * ?u \<le> of_int (roundTiesToEven (x / ?u)) * ?u"
    "of_int (roundTiesToEven (x / ?u)) * ?u \<le> 2 ^ 53 * ?u"
    by simp_all
  with x(1) show "2 powi binade x \<le> double x" and "double x \<le> 2 powi (binade x + 1)"
    by (simp_all only: lo hi double_def if_False)
qed

lemma double_pos: "0 < x \<Longrightarrow> 0 < double x"
  using double_bounds(1) [of x] zero_less_power_int [of "2::real" "binade x"] by linarith

lemma double_nonneg: "0 \<le> x \<Longrightarrow> 0 \<le> double x"
  using double_pos [of x] by (cases "x = 0") (simp_all add: double_0 less_eq_real_def)

lemma double_mono_pos:
  assumes "0 < x" "x \<le> y"
  shows "double x \<le> double y"
proof (cases "binade x = binade y")
  case True
  let ?u = "(2::real) powi (binade y - 52)"
  have u: "0 < ?u" by simp
  with assms(2) have "x / ?u \<le> y / ?u" by (simp add: divide_right_mono)
  from roundTiesToEven_mono [OF this] have "of_int (roundTiesToEven (x / ?u)) * ?u \<le> of_int (roundTiesToEven (y / ?u)) * ?u"
    using u by simp
  with assms True show ?thesis by (simp add: double_def)
next
  case False
  from assms have y: "0 < y" by simp
  have "binade x \<le> binade y"
  proof (rule ccontr)
    assume "\<not> binade x \<le> binade y"
    then have "binade y + 1 \<le> binade x" by simp
    then have "(2::real) powi (binade y + 1) \<le> 2 powi binade x"
      by (rule power_int_increasing) simp
    with binade_bounds(1) [of x] binade_bounds(2) [of y] assms y show False by simp
  qed
  with False have "binade x + 1 \<le> binade y" by simp
  then have "(2::real) powi (binade x + 1) \<le> 2 powi binade y"
    by (rule power_int_increasing) simp
  with double_bounds(2) [OF assms(1)] double_bounds(1) [OF y] show ?thesis by linarith
qed

lemma double_mono:
  assumes "x \<le> y"
  shows "double x \<le> double y"
proof -
  consider "0 < x" | "x \<le> 0" "0 \<le> y" | "y < 0" by linarith
  then show ?thesis
  proof cases
    case 1
    from 1 assms show ?thesis by (rule double_mono_pos)
  next
    case 2
    from 2(1) have "0 \<le> double (- x)" by (intro double_nonneg) simp
    then have "double x \<le> 0" by (simp add: double_minus)
    with double_nonneg [OF 2(2)] show ?thesis by linarith
  next
    case 3
    with assms have "0 < - y" "- y \<le> - x" by simp_all
    from double_mono_pos [OF this] show ?thesis by (simp add: double_minus)
  qed
qed

text \<open>A number with a mantissa below \<open>2 ^ 53\<close> is a double.\<close>

lemma double_dyadic:
  assumes "x = of_int m * 2 powi k" "\<bar>m\<bar> < 2 ^ 53"
  shows "double x = x"
proof (cases "x = 0")
  case True
  then show ?thesis by (simp add: double_0)
next
  case False
  let ?e = "binade x"
  have m: "\<bar>x\<bar> = of_int \<bar>m\<bar> * 2 powi k"
    by (simp add: assms(1) abs_mult)
  from assms(2) have "\<bar>m\<bar> \<le> 2 ^ 53 - 1" by simp
  then have "(of_int \<bar>m\<bar> :: real) \<le> of_int (2 ^ 53 - 1)" by (simp only: of_int_le_iff)
  then have "(of_int \<bar>m\<bar> :: real) < 2 ^ 53" by simp
  then have "\<bar>x\<bar> < 2 ^ 53 * 2 powi k" by (simp add: m)
  also have "\<dots> = 2 powi (k + 53)" by (simp add: power_int_add)
  finally have "2 powi ?e < (2::real) powi (k + 53)"
    using binade_bounds(1) [OF False] by linarith
  have "?e < k + 53"
  proof (rule ccontr)
    assume "\<not> ?e < k + 53"
    then have "k + 53 \<le> ?e" by simp
    then have "(2::real) powi (k + 53) \<le> 2 powi ?e"
      by (rule power_int_increasing) simp
    with \<open>2 powi ?e < (2::real) powi (k + 53)\<close> show False by simp
  qed
  then have "0 \<le> k - (?e - 52)" by simp
  then obtain j where j: "k - (?e - 52) = int j"
    by (rule nonneg_int_cases)
  have "x / 2 powi (?e - 52) = of_int m * 2 powi (k - (?e - 52))"
    by (simp add: assms(1) power_int_diff)
  also have "\<dots> = of_int (m * 2 ^ j)" by (simp add: j)
  finally have q: "x / 2 powi (?e - 52) = of_int (m * 2 ^ j)" .
  have "double x = of_int (m * 2 ^ j) * 2 powi (?e - 52)"
    using False by (simp only: double_def q roundTiesToEven_of_int if_False)
  also have "\<dots> = x / 2 powi (?e - 52) * 2 powi (?e - 52)" by (simp only: q)
  also have "\<dots> = x" by simp
  finally show ?thesis .
qed

lemma double_idem: "double (double x) = double x"
proof -
  have pos: "double (double x) = double x" if "0 < x" for x
  proof -
    let ?e = "binade x"
    let ?u = "(2::real) powi (?e - 52)"
    let ?n = "roundTiesToEven (x / ?u)"
    from that have v: "double x = of_int ?n * ?u" by (simp add: double_def)
    have hi: "2 powi (?e + 1) = 2 ^ 53 * ?u" by (simp add: power_int_diff power_int_add)
    show ?thesis
    proof (cases "double x = 2 powi (?e + 1)")
      case True
      have "double (2 powi (?e + 1)) = 2 powi (?e + 1)"
        by (rule double_dyadic [of _ 1 "?e + 1"]) simp_all
      with True show ?thesis by simp
    next
      case False
      with double_bounds(2) [OF that] have "double x < 2 powi (?e + 1)" by simp
      then have "of_int ?n * ?u < 2 ^ 53 * ?u" by (simp only: v hi)
      then have "(of_int ?n :: real) < of_int (2 ^ 53)" by simp
      then have "?n < 2 ^ 53" by (simp only: of_int_less_iff)
      moreover from double_pos [OF that] have "0 < of_int ?n * ?u" by (simp only: v)
      then have "0 < (of_int ?n :: real)" by (rule zero_less_mult_pos2) simp
      then have "0 < ?n" by simp
      ultimately have "\<bar>?n\<bar> < 2 ^ 53" by simp
      from double_dyadic [OF v this] show ?thesis .
    qed
  qed
  consider "0 < x" | "x = 0" | "x < 0" by linarith
  then show ?thesis
  proof cases
    case 1
    then show ?thesis by (rule pos)
  next
    case 2
    then show ?thesis by (simp add: double_0)
  next
    case 3
    then have "0 < - x" by simp
    from pos [OF this] show ?thesis by (simp add: double_minus)
  qed
qed

text \<open>Rounding moves a number by at most half an ulp.\<close>

lemma roundTiesToEven_error: "\<bar>of_int (roundTiesToEven x) - x\<bar> \<le> 1 / 2"
proof -
  have "of_int \<lfloor>x\<rfloor> \<le> x" "x < of_int \<lfloor>x\<rfloor> + 1" by linarith+
  then show ?thesis
    by (auto simp: roundTiesToEven_def Let_def abs_le_iff)
qed

lemma double_error: "\<bar>double x - x\<bar> \<le> \<bar>x\<bar> / 2 ^ 53"
proof (cases "x = 0")
  case True
  then show ?thesis by (simp add: double_0)
next
  case False
  let ?u = "(2::real) powi (binade x - 52)"
  have u: "0 < ?u" by simp
  have "double x - x = (of_int (roundTiesToEven (x / ?u)) - x / ?u) * ?u"
    using False by (simp add: double_def algebra_simps)
  then have "\<bar>double x - x\<bar> = \<bar>of_int (roundTiesToEven (x / ?u)) - x / ?u\<bar> * ?u"
    by (simp add: abs_mult)
  also have "\<dots> \<le> 1 / 2 * ?u"
    using roundTiesToEven_error [of "x / ?u"] u by (intro mult_right_mono) simp_all
  also have "1 / 2 * ?u = 2 powi binade x / 2 ^ 53"
    by (simp add: power_int_diff)
  also have "\<dots> \<le> \<bar>x\<bar> / 2 ^ 53"
    using binade_bounds(1) [OF False] by (simp add: divide_right_mono)
  finally show ?thesis .
qed

text \<open>
  An update \<open>y += s\<close> moves \<open>y\<close> by at least \<open>s / 2\<close> as long as the sum stays below
  \<open>2 ^ 52\<close> steps.
\<close>

lemma step_progress:
  assumes "0 < s" "- s \<le> y" "y + s \<le> 2 ^ 52 * s"
  shows "y + s / 2 \<le> double (y + s)"
proof -
  from assms(2) have z: "\<bar>y + s\<bar> = y + s" by simp
  from double_error [of "y + s"] have "\<bar>double (y + s) - (y + s)\<bar> \<le> (y + s) / 2 ^ 53"
    unfolding z .
  then have "y + s - (y + s) / 2 ^ 53 \<le> double (y + s)" by linarith
  moreover from assms(3) have "(y + s) / 2 ^ 53 \<le> s / 2" by simp
  ultimately show ?thesis by linarith
qed

text \<open>Doubling and halving are exact.\<close>

lemma binade_twice:
  assumes "x \<noteq> 0"
  shows "binade (2 * x) = binade x + 1"
proof (rule binade_unique)
  from assms show "2 * x \<noteq> 0" by simp
  from binade_bounds(1) [OF assms] show "2 powi (binade x + 1) \<le> \<bar>2 * x\<bar>"
    by (simp add: power_int_add abs_mult)
  from binade_bounds(2) [OF assms] show "\<bar>2 * x\<bar> < 2 powi (binade x + 1 + 1)"
    by (simp add: power_int_add abs_mult)
qed

lemma double_twice: "double (2 * x) = 2 * double x"
proof (cases "x = 0")
  case True
  then show ?thesis by (simp add: double_0)
next
  case False
  have "(2::real) powi (binade x - 52 + 1) = 2 powi (binade x - 52) * 2 powi 1"
    by (rule power_int_add) simp
  then have u: "(2::real) powi (binade x - 51) = 2 * 2 powi (binade x - 52)"
    by (simp add: add.commute)
  from False show ?thesis
    by (simp add: double_def binade_twice u)
qed

lemma double_half: "double (x / 2) = double x / 2"
  using double_twice [of "x / 2"] by simp

section \<open>The tiling loop\<close>

text \<open>A loop makes one number of passes, and its variable stays between start and limit.\<close>

lemma passes_unique: "passes s l v n \<Longrightarrow> passes s l v m \<Longrightarrow> n = m"
proof (induction n arbitrary: v m)
  case 0
  then show ?case by (cases m) simp_all
next
  case (Suc n)
  then show ?case by (cases m) auto
qed

lemma passes_below: "passes s l v n \<Longrightarrow> u \<in> set (stepsFrom s v n) \<Longrightarrow> u < l"
  by (induction n arbitrary: v) auto

lemma stepsFrom_above:
  assumes "0 \<le> s"
  shows "- s \<le> v \<Longrightarrow> u \<in> set (stepsFrom s v n) \<Longrightarrow> - s \<le> u"
proof (induction n arbitrary: v)
  case 0
  then show ?case by simp
next
  case (Suc n)
  from Suc.prems(1) have "0 \<le> double (v + s)" by (intro double_nonneg) simp
  with assms have "- s \<le> double (v + s)" by simp
  with Suc show ?case by auto
qed

text \<open>What the loops return is the closed form.\<close>

lemma tileColumn_closed:
  assumes run: "tileColumn sx sy ly x y acc = Some cs"
  shows "\<exists>n. passes sy ly y n \<and> cs = acc @ columnCentres sx sy x (stepsFrom sy y n)"
proof -
  define P where "P = (\<lambda>(sx::real) (sy::real) (ly::real) (x::real) (y::real)
      (acc::(real \<times> real) list) (cs::(real \<times> real) list).
        \<exists>n. passes sy ly y n \<and> cs = acc @ columnCentres sx sy x (stepsFrom sy y n))"
  have "P sx sy ly x y acc cs"
  proof (rule tileColumn.raw_induct
      [where xa = "(((((sx, sy), ly), x), y), acc)" and P = P, unfolded prod.case])
    show "tileColumn sx sy ly x y acc = Some cs" by (rule run)
  next
    fix f :: "real \<Rightarrow> real \<Rightarrow> real \<Rightarrow> real \<Rightarrow> real \<Rightarrow> (real \<times> real) list \<Rightarrow> (real \<times> real) list option"
    fix sx sy ly x y :: real and acc r :: "(real \<times> real) list"
    assume ih: "\<And>sx sy ly x y acc cs. f sx sy ly x y acc = Some cs \<Longrightarrow> P sx sy ly x y acc cs"
      and r: "(if y < ly then f sx sy ly x (double (y + sy))
                 (acc @ [(double (x + rowOffset sx sy y), y)]) else Some acc) = Some r"
    show "P sx sy ly x y acc r"
    proof (cases "y < ly")
      case False
      with r have "passes sy ly y 0 \<and> r = acc @ columnCentres sx sy x (stepsFrom sy y 0)"
        by (simp add: columnCentres_def)
      then show ?thesis unfolding P_def by (rule exI)
    next
      case True
      with r have "f sx sy ly x (double (y + sy)) (acc @ [(double (x + rowOffset sx sy y), y)]) = Some r"
        by simp
      from ih [OF this] obtain n where n: "passes sy ly (double (y + sy)) n"
        and c: "r = (acc @ [(double (x + rowOffset sx sy y), y)])
                      @ columnCentres sx sy x (stepsFrom sy (double (y + sy)) n)"
        unfolding P_def by blast
      from True n c have "passes sy ly y (Suc n) \<and> r = acc @ columnCentres sx sy x (stepsFrom sy y (Suc n))"
        by (simp add: columnCentres_def)
      then show ?thesis unfolding P_def by (rule exI)
    qed
  qed
  then show ?thesis unfolding P_def .
qed

lemma tileGrid_closed:
  assumes run: "tileGrid sx sy lx ly x acc = Some cs"
  shows "\<exists>nx. passes sx lx x nx \<and>
           (\<forall>ny. passes sy ly (- sy) ny \<longrightarrow>
              cs = acc @ gridCentres sx sy (stepsFrom sx x nx) (stepsFrom sy (- sy) ny))"
proof -
  define P where "P = (\<lambda>(sx::real) (sy::real) (lx::real) (ly::real) (x::real)
      (acc::(real \<times> real) list) (cs::(real \<times> real) list).
        \<exists>nx. passes sx lx x nx \<and>
           (\<forall>ny. passes sy ly (- sy) ny \<longrightarrow>
              cs = acc @ gridCentres sx sy (stepsFrom sx x nx) (stepsFrom sy (- sy) ny)))"
  have "P sx sy lx ly x acc cs"
  proof (rule tileGrid.raw_induct
      [where xa = "(((((sx, sy), lx), ly), x), acc)" and P = P, unfolded prod.case])
    show "tileGrid sx sy lx ly x acc = Some cs" by (rule run)
  next
    fix f :: "real \<Rightarrow> real \<Rightarrow> real \<Rightarrow> real \<Rightarrow> real \<Rightarrow> (real \<times> real) list \<Rightarrow> (real \<times> real) list option"
    fix sx sy lx ly x :: real and acc r :: "(real \<times> real) list"
    assume ih: "\<And>sx sy lx ly x acc cs. f sx sy lx ly x acc = Some cs \<Longrightarrow> P sx sy lx ly x acc cs"
      and r: "(if x < lx then tileColumn sx sy ly x (- sy) acc \<bind> f sx sy lx ly (double (x + sx))
              else Some acc) = Some r"
    show "P sx sy lx ly x acc r"
    proof (cases "x < lx")
      case False
      with r have "passes sx lx x 0 \<and>
           (\<forall>ny. passes sy ly (- sy) ny \<longrightarrow>
              r = acc @ gridCentres sx sy (stepsFrom sx x 0) (stepsFrom sy (- sy) ny))"
        by (simp add: gridCentres_def)
      then show ?thesis unfolding P_def by (rule exI)
    next
      case True
      with r obtain acc' where col: "tileColumn sx sy ly x (- sy) acc = Some acc'"
        and rest: "f sx sy lx ly (double (x + sx)) acc' = Some r"
        by (auto simp: bind_eq_Some_conv)
      from tileColumn_closed [OF col] obtain n where n: "passes sy ly (- sy) n"
        and a: "acc' = acc @ columnCentres sx sy x (stepsFrom sy (- sy) n)"
        by blast
      from ih [OF rest] obtain nx where nx: "passes sx lx (double (x + sx)) nx"
        and c: "\<And>ny. passes sy ly (- sy) ny \<Longrightarrow>
              r = acc' @ gridCentres sx sy (stepsFrom sx (double (x + sx)) nx) (stepsFrom sy (- sy) ny)"
        unfolding P_def by blast
      have "r = acc @ gridCentres sx sy (stepsFrom sx x (Suc nx)) (stepsFrom sy (- sy) ny)"
        if "passes sy ly (- sy) ny" for ny
      proof -
        from passes_unique [OF that n] have "ny = n" .
        with c [OF n] a show ?thesis by (simp add: gridCentres_def)
      qed
      with True nx have "passes sx lx x (Suc nx) \<and>
           (\<forall>ny. passes sy ly (- sy) ny \<longrightarrow>
              r = acc @ gridCentres sx sy (stepsFrom sx x (Suc nx)) (stepsFrom sy (- sy) ny))"
        by simp
      then show ?thesis unfolding P_def by (rule exI)
    qed
  qed
  then show ?thesis unfolding P_def .
qed

text \<open>Both loops end when the limit is below \<open>2 ^ 52\<close> steps.\<close>

lemma measure_step:
  fixes l v v' s :: real
  assumes "0 < s" "v + s / 2 \<le> v'" "v < l"
  shows "nat \<lceil>(l - v') * 2 / s\<rceil> < nat \<lceil>(l - v) * 2 / s\<rceil>"
proof -
  have e: "(l - v) * 2 / s - 1 = (l - v - s / 2) * 2 / s"
    using assms(1) by (simp add: field_simps)
  from assms(2) have "(l - v') * 2 \<le> (l - v - s / 2) * 2" by simp
  then have "(l - v') * 2 / s \<le> (l - v - s / 2) * 2 / s"
    by (rule divide_right_mono) (use assms(1) in simp)
  then have "(l - v') * 2 / s \<le> (l - v) * 2 / s - 1" by (simp only: e)
  then have "\<lceil>(l - v') * 2 / s\<rceil> \<le> \<lceil>(l - v) * 2 / s - 1\<rceil>" by (rule ceiling_mono)
  then have "\<lceil>(l - v') * 2 / s\<rceil> \<le> \<lceil>(l - v) * 2 / s\<rceil> - 1" by simp
  moreover from assms(1,3) have "0 < (l - v) * 2 / s" by simp
  then have "0 < \<lceil>(l - v) * 2 / s\<rceil>" by linarith
  ultimately show ?thesis by linarith
qed

lemma tileColumn_ends:
  assumes "0 < sy" "ly + sy \<le> 2 ^ 52 * sy" "- sy \<le> y"
  shows "\<exists>cs. tileColumn sx sy ly x y acc = Some cs"
  using assms(3)
proof (induction "nat \<lceil>(ly - y) * 2 / sy\<rceil>" arbitrary: y acc rule: less_induct)
  case less
  show ?case
  proof (cases "y < ly")
    case False
    then show ?thesis by (subst tileColumn.simps) simp
  next
    case True
    let ?y = "double (y + sy)"
    from True assms(2) have "y + sy \<le> 2 ^ 52 * sy" by simp
    from step_progress [OF assms(1) less.prems this] have p: "y + sy / 2 \<le> ?y" .
    with assms(1) less.prems have y': "- sy \<le> ?y" by simp
    from measure_step [OF assms(1) p True]
    have "nat \<lceil>(ly - ?y) * 2 / sy\<rceil> < nat \<lceil>(ly - y) * 2 / sy\<rceil>" .
    from less.hyps [OF this y'] obtain cs where
      "tileColumn sx sy ly x ?y (acc @ [(double (x + rowOffset sx sy y), y)]) = Some cs"
      by blast
    with True show ?thesis by (subst tileColumn.simps) simp
  qed
qed

lemma tileGrid_ends:
  assumes "0 < sx" "0 < sy" "lx + sx \<le> 2 ^ 52 * sx" "ly + sy \<le> 2 ^ 52 * sy" "- sx \<le> x"
  shows "\<exists>cs. tileGrid sx sy lx ly x acc = Some cs"
  using assms(5)
proof (induction "nat \<lceil>(lx - x) * 2 / sx\<rceil>" arbitrary: x acc rule: less_induct)
  case less
  show ?case
  proof (cases "x < lx")
    case False
    then show ?thesis by (subst tileGrid.simps) simp
  next
    case True
    let ?x = "double (x + sx)"
    from True assms(3) have "x + sx \<le> 2 ^ 52 * sx" by simp
    from step_progress [OF assms(1) less.prems this] have p: "x + sx / 2 \<le> ?x" .
    with assms(1) less.prems have x': "- sx \<le> ?x" by simp
    from measure_step [OF assms(1) p True]
    have m: "nat \<lceil>(lx - ?x) * 2 / sx\<rceil> < nat \<lceil>(lx - x) * 2 / sx\<rceil>" .
    from tileColumn_ends [OF assms(2,4), of "- sy" sx x acc] obtain acc' where
      col: "tileColumn sx sy ly x (- sy) acc = Some acc'"
      by auto
    from less.hyps [OF m x'] obtain cs where "tileGrid sx sy lx ly ?x acc' = Some cs"
      by blast
    with True col show ?thesis by (subst tileGrid.simps) simp
  qed
qed

lemma steps_positive:
  assumes "0 < watermarkScale config" "0 < canvas_width canvas"
    and "0 < img_width wmImg" "0 < img_height wmImg"
  shows "0 < stepX canvas config" "0 < stepY canvas config wmImg"
proof -
  from assms(1) have "0 < double (watermarkScale config / 100)" by (intro double_pos) simp
  with assms(2) have w: "0 < roundedWmWidth canvas config"
    unfolding roundedWmWidth_def by (intro double_pos) simp
  then show "0 < stepX canvas config"
    unfolding stepX_def by (intro double_pos) simp
  from assms(3,4) have "0 < double (real (img_width wmImg) / real (img_height wmImg))"
    by (intro double_pos) simp
  with w have "0 < roundedWmHeight canvas config wmImg"
    unfolding roundedWmHeight_def by (intro double_pos) simp
  then show "0 < stepY canvas config wmImg"
    unfolding stepY_def by (intro double_pos) simp
qed

lemma limit_in_reach:
  assumes "0 < s" "0 \<le> d" "d \<le> 2 ^ 50 * s"
  shows "double (d + s) + s \<le> 2 ^ 52 * s"
proof -
  from assms(1,2) have z: "\<bar>d + s\<bar> = d + s" by simp
  from double_error [of "d + s"] have "\<bar>double (d + s) - (d + s)\<bar> \<le> (d + s) / 2 ^ 53"
    unfolding z .
  moreover from assms(1,2) have "(d + s) / 2 ^ 53 \<le> d + s" by simp
  ultimately have "double (d + s) + s \<le> 2 * d + 3 * s" by linarith
  also from assms(3) have "\<dots> \<le> 2 * (2 ^ 50 * s) + 3 * s" by simp
  also from assms(1) have "\<dots> \<le> 2 ^ 52 * s" by simp
  finally show ?thesis .
qed

lemma steps_double:
  "double (stepX canvas config) = stepX canvas config"
  "double (stepY canvas config wmImg) = stepY canvas config wmImg"
  by (simp_all add: stepX_def stepY_def double_idem)

text \<open>
  The first three rows of a column are shifted, not shifted and shifted: there the sum
  and the quotient of line 272 are exact.
\<close>

lemma rowOffset_rows:
  assumes "0 < sy" "double sx = sx" "double sy = sy"
  shows "rowOffset sx sy (- sy) = sx / 2" and "rowOffset sx sy 0 = 0"
    and "rowOffset sx sy sy = sx / 2"
    and "rowOffset sx sy y = 0 \<or> rowOffset sx sy y = sx / 2"
proof -
  have h: "double (sx / 2) = sx / 2" by (simp add: double_half assms(2))
  have n: "double 1 = 1" "double 2 = 2"
    by (simp_all add: double_def binade_def roundTiesToEven_def compute_floorlog)
  have t: "double (2 * sy) = 2 * sy"
    using double_twice [of sy] by (simp add: assms(3))
  from assms(1) show "rowOffset sx sy (- sy) = sx / 2"
    by (simp add: rowOffset_def double_0 h)
  from assms(1) show "rowOffset sx sy 0 = 0"
    by (simp add: rowOffset_def assms(3) n signed_modulo_int_def)
  from assms(1) show "rowOffset sx sy sy = sx / 2"
    by (simp add: rowOffset_def t n h signed_modulo_int_def)
  show "rowOffset sx sy y = 0 \<or> rowOffset sx sy y = sx / 2"
    by (simp add: rowOffset_def h)
qed

text \<open>
  C2, amended. In tiled mode, with a positive scale, a canvas of positive width and a
  watermark image of positive size, the centres drawn are the points \<open>(x + offset, y)\<close>,
  column by column for \<open>x\<close> from \<open>-stepX\<close> in steps of \<open>stepX\<close> while
  \<open>x < canvas.width + stepX\<close>, and in each column row by row for \<open>y\<close> from \<open>-stepY\<close> in steps
  of \<open>stepY\<close> while \<open>y < canvas.height + stepY\<close>, every sum as the code rounds it. So
  each centre lies in \<open>[-stepY, canvas.height + stepY)\<close> vertically and in
  \<open>[-stepX, canvas.width + stepX + stepX / 2]\<close> horizontally. The offset of a row is 0 or
  \<open>stepX / 2\<close>; it is \<open>stepX / 2\<close> in the first row, 0 in the second and \<open>stepX / 2\<close> in
  the third. Which of the later rows are shifted is not stated. The loop ends whenever
  the canvas is at most \<open>2 ^ 50\<close> steps wide and high.
\<close>

theorem C2_tiled_grid:
  assumes "watermarkMode config = tiled" "0 < watermarkScale config" "0 < canvas_width canvas"
    and "0 < img_width wmImg" "0 < img_height wmImg"
  shows "(\<forall>cs. watermarkCentres canvas config wmImg = Some cs \<longrightarrow>
           (\<exists>nx ny.
               passes (stepX canvas config) (limitX canvas config) (- stepX canvas config) nx
             \<and> passes (stepY canvas config wmImg) (limitY canvas config wmImg)
                  (- stepY canvas config wmImg) ny
             \<and> cs = gridCentres (stepX canvas config) (stepY canvas config wmImg)
                      (stepsFrom (stepX canvas config) (- stepX canvas config) nx)
                      (stepsFrom (stepY canvas config wmImg) (- stepY canvas config wmImg) ny))
           \<and> (\<forall>c \<in> set cs.
                  - stepX canvas config \<le> fst c
                \<and> fst c \<le> double (limitX canvas config + stepX canvas config / 2)
                \<and> - stepY canvas config wmImg \<le> snd c
                \<and> snd c < limitY canvas config wmImg))
       \<and> (\<forall>y. rowOffset (stepX canvas config) (stepY canvas config wmImg) y = 0
              \<or> rowOffset (stepX canvas config) (stepY canvas config wmImg) y
                   = stepX canvas config / 2)
       \<and> rowOffset (stepX canvas config) (stepY canvas config wmImg) (- stepY canvas config wmImg)
            = stepX canvas config / 2
       \<and> rowOffset (stepX canvas config) (stepY canvas config wmImg) 0 = 0
       \<and> rowOffset (stepX canvas config) (stepY canvas config wmImg) (stepY canvas config wmImg)
            = stepX canvas config / 2
       \<and> (real (canvas_width canvas) \<le> 2 ^ 50 * stepX canvas config
            \<and> real (canvas_height canvas) \<le> 2 ^ 50 * stepY canvas config wmImg
          \<longrightarrow> (\<exists>cs. watermarkCentres canvas config wmImg = Some cs))"
proof -
  let ?sx = "stepX canvas config" and ?sy = "stepY canvas config wmImg"
  let ?lx = "limitX canvas config" and ?ly = "limitY canvas config wmImg"
  from steps_positive [OF assms(2-5)] have sx: "0 < ?sx" and sy: "0 < ?sy" .
  note ro = rowOffset_rows [OF sy steps_double(1) [of canvas config] steps_double(2) [of canvas config wmImg]]
  have wc: "watermarkCentres canvas config wmImg = tileGrid ?sx ?sy ?lx ?ly (- ?sx) []"
    using assms(1) by (simp add: watermarkCentres_def tiledCentres_def Let_def)
  have dsx: "double (- ?sx) = - ?sx"
    by (simp only: double_minus steps_double)
  from sx have "0 < ?lx" unfolding limitX_def by (intro double_pos) simp
  with sx have first: "- ?sx < ?lx" by simp
  have closed: "\<exists>nx ny. passes ?sx ?lx (- ?sx) nx \<and> passes ?sy ?ly (- ?sy) ny
        \<and> cs = gridCentres ?sx ?sy (stepsFrom ?sx (- ?sx) nx) (stepsFrom ?sy (- ?sy) ny)"
    if run: "watermarkCentres canvas config wmImg = Some cs" for cs
  proof -
    from run have g: "tileGrid ?sx ?sy ?lx ?ly (- ?sx) [] = Some cs" by (simp only: wc)
    then have "(tileColumn ?sx ?sy ?ly (- ?sx) (- ?sy) []
                  \<bind> tileGrid ?sx ?sy ?lx ?ly (double (- ?sx + ?sx))) = Some cs"
      using first by (subst (asm) tileGrid.simps) simp
    then obtain acc' where "tileColumn ?sx ?sy ?ly (- ?sx) (- ?sy) [] = Some acc'"
      by (auto simp: bind_eq_Some_conv)
    from tileColumn_closed [OF this] obtain ny where ny: "passes ?sy ?ly (- ?sy) ny" by blast
    from tileGrid_closed [OF g] ny obtain nx where "passes ?sx ?lx (- ?sx) nx"
      "cs = [] @ gridCentres ?sx ?sy (stepsFrom ?sx (- ?sx) nx) (stepsFrom ?sy (- ?sy) ny)"
      by blast
    with ny show ?thesis by auto
  qed
  have safe: "- ?sx \<le> fst c \<and> fst c \<le> double (?lx + ?sx / 2) \<and> - ?sy \<le> snd c \<and> snd c < ?ly"
    if run: "watermarkCentres canvas config wmImg = Some cs" and c: "c \<in> set cs" for cs c
  proof -
    from closed [OF run] obtain nx ny where nx: "passes ?sx ?lx (- ?sx) nx"
      and ny: "passes ?sy ?ly (- ?sy) ny"
      and cs: "cs = gridCentres ?sx ?sy (stepsFrom ?sx (- ?sx) nx) (stepsFrom ?sy (- ?sy) ny)"
      by blast
    from c obtain x y where x: "x \<in> set (stepsFrom ?sx (- ?sx) nx)"
      and y: "y \<in> set (stepsFrom ?sy (- ?sy) ny)"
      and e: "c = (double (x + rowOffset ?sx ?sy y), y)"
      unfolding cs gridCentres_def columnCentres_def by auto
    from sx have "0 \<le> ?sx" by simp
    from stepsFrom_above [OF this _ x] passes_below [OF nx x]
    have xb: "- ?sx \<le> x" "x < ?lx" by simp_all
    from sy have "0 \<le> ?sy" by simp
    from stepsFrom_above [OF this _ y] passes_below [OF ny y]
    have yb: "- ?sy \<le> y" "y < ?ly" by simp_all
    from ro(4) [where y = y] sx have "0 \<le> rowOffset ?sx ?sy y" "rowOffset ?sx ?sy y \<le> ?sx / 2"
      by auto
    with xb have "- ?sx \<le> x + rowOffset ?sx ?sy y" "x + rowOffset ?sx ?sy y \<le> ?lx + ?sx / 2"
      by simp_all
    from double_mono [OF this(1)] double_mono [OF this(2)]
    have "- ?sx \<le> fst c" "fst c \<le> double (?lx + ?sx / 2)"
      by (simp_all only: dsx e fst_conv)
    with yb e show ?thesis by simp
  qed
  have ends: "\<exists>cs. watermarkCentres canvas config wmImg = Some cs"
    if "real (canvas_width canvas) \<le> 2 ^ 50 * ?sx" "real (canvas_height canvas) \<le> 2 ^ 50 * ?sy"
  proof -
    from limit_in_reach [OF sx _ that(1)] have lx: "?lx + ?sx \<le> 2 ^ 52 * ?sx"
      by (simp add: limitX_def)
    from limit_in_reach [OF sy _ that(2)] have ly: "?ly + ?sy \<le> 2 ^ 52 * ?sy"
      by (simp add: limitY_def)
    from tileGrid_ends [OF sx sy lx ly, of "- ?sx" "[]"] show ?thesis by (simp only: wc)
  qed
  from closed safe ends ro show ?thesis by blast
qed

text \<open>
  C2, as stated, fails on the horizontal axis. On the 800 x 600 canvas with the 200 x 100
  logo at scale 50 the steps are 600 and 300, every operation of the loop is exact, and
  the shifted rows reach the centre \<open>(1500, -300)\<close>, to the right of
  \<open>canvas.width + stepX = 1400\<close>.
\<close>

theorem C2_tiled_bounds_counterexample:
  "watermarkCentres canvas800 tiledConfig logo =
     Some [(- 300, - 300), (- 600, 0), (- 300, 300), (- 600, 600), (300, - 300),
           (0, 0), (300, 300), (0, 600), (900, - 300), (600, 0), (900, 300),
           (600, 600), (1500, - 300), (1200, 0), (1500, 300), (1200, 600)]
   \<and> stepX canvas800 tiledConfig = 600
   \<and> \<not> (1500 \<le> real (canvas_width canvas800) + stepX canvas800 tiledConfig)"
  apply (simp add: watermarkCentres_def tiledCentres_def tiledConfig_def initialConfig_def canvas800_def logo_def
      Let_def stepX_def stepY_def limitX_def limitY_def roundedWmWidth_def roundedWmHeight_def
      double_def binade_def roundTiesToEven_def compute_floorlog)
  apply (simp add: tileGrid.simps tileColumn.simps rowOffset_def signed_modulo_int_def
      double_def binade_def roundTiesToEven_def compute_floorlog)
  done

theorem C2_tiled_grid_witness:
  "watermarkMode tiledConfig = tiled \<and> 0 < watermarkScale tiledConfig \<and> 0 < canvas_width canvas800
   \<and> 0 < img_width logo \<and> 0 < img_height logo
   \<and> real (canvas_width canvas800) \<le> 2 ^ 50 * stepX canvas800 tiledConfig
   \<and> real (canvas_height canvas800) \<le> 2 ^ 50 * stepY canvas800 tiledConfig logo
   \<and> (\<exists>cs. watermarkCentres canvas800 tiledConfig logo = Some cs \<and>
         (\<forall>c \<in> set cs. - 600 \<le> fst c \<and> fst c \<le> 1700 \<and> - 300 \<le> snd c \<and> snd c < 900))
   \<and> rowOffset 600 300 (- 300) = 300 \<and> rowOffset 600 300 0 = 0 \<and> rowOffset 600 300 300 = 300"
proof -
  have h: "watermarkMode tiledConfig = tiled" "0 < watermarkScale tiledConfig" "0 < canvas_width canvas800"
    "0 < img_width logo" "0 < img_height logo"
    by (simp_all add: tiledConfig_def canvas800_def logo_def)
  have s: "stepX canvas800 tiledConfig = 600" "stepY canvas800 tiledConfig logo = 300"
    by (simp_all add: stepX_def stepY_def roundedWmWidth_def roundedWmHeight_def
          tiledConfig_def initialConfig_def canvas800_def logo_def
          double_def binade_def roundTiesToEven_def compute_floorlog)
  have w: "real (canvas_width canvas800) = 800" "real (canvas_height canvas800) = 600"
    by (simp_all add: canvas800_def)
  have l: "limitX canvas800 tiledConfig = 1400" "limitY canvas800 tiledConfig logo = 900"
    "double (1400 + 600 / 2) = 1700"
    by (simp_all add: limitX_def limitY_def s w double_def binade_def roundTiesToEven_def compute_floorlog)
  have r: "real (canvas_width canvas800) \<le> 2 ^ 50 * stepX canvas800 tiledConfig"
    "real (canvas_height canvas800) \<le> 2 ^ 50 * stepY canvas800 tiledConfig logo"
    by (simp_all add: s w)
  note t = C2_tiled_grid [OF h, unfolded s l]
  from t r obtain cs where cs: "watermarkCentres canvas800 tiledConfig logo = Some cs"
    unfolding s by blast
  with t have b: "\<forall>c \<in> set cs. - 600 \<le> fst c \<and> fst c \<le> 1700 \<and> - 300 \<le> snd c \<and> snd c < 900"
    by blast
  from t have o: "rowOffset 600 300 (- 300) = 300" "rowOffset 600 300 0 = 0" "rowOffset 600 300 300 = 300"
    by simp_all
  from cs b have "\<exists>cs. watermarkCentres canvas800 tiledConfig logo = Some cs \<and>
         (\<forall>c \<in> set cs. - 600 \<le> fst c \<and> fst c \<le> 1700 \<and> - 300 \<le> snd c \<and> snd c < 900)"
    by blast
  with h r o show ?thesis by (intro conjI)
qed

text \<open>
  On the same canvas with the 500 x 130 banner at scale 60 the steps are 720 and about
  187.2. In the fourth row the rounded quotient \<open>(y + stepY) / stepY\<close> of line 272 comes
  out just below 3, its floor is 2, and the row is shifted like the rows before and after
  it: the first column draws its third, fourth and fifth instance all at
  \<open>-stepX + stepX / 2\<close>. The rows of the code do not always alternate.
\<close>

lemma tiled_rows_of_banner:
  "map_option (map fst \<circ> take 6) (watermarkCentres canvas800 bannerConfig banner) =
     Some [- 360, - 720, - 360, - 360, - 360, - 720]
   \<and> stepX canvas800 bannerConfig = 720"
  apply (simp add: watermarkCentres_def tiledCentres_def bannerConfig_def initialConfig_def canvas800_def banner_def
      Let_def stepX_def stepY_def limitX_def limitY_def roundedWmWidth_def roundedWmHeight_def
      double_def binade_def roundTiesToEven_def compute_floorlog)
  apply (simp add: tileGrid.simps tileColumn.simps rowOffset_def signed_modulo_int_def
      double_def binade_def roundTiesToEven_def compute_floorlog)
  done

section \<open>Names\<close>

lemma endsWith_iff: "endsWith s suffix \<longleftrightarrow> (\<exists>pre. s = pre @ suffix)"
proof
  assume "endsWith s suffix"
  then have "s = take (length s - length suffix) s @ suffix"
    by (metis append_take_drop_id endsWith_def)
  then show "\<exists>pre. s = pre @ suffix" ..
next
  assume "\<exists>pre. s = pre @ suffix"
  then show "endsWith s suffix" by (auto simp: endsWith_def)
qed

lemma afterLast_append:
  assumes "c \<notin> set e"
  shows "rev (takeWhile (\<lambda>x. x \<noteq> c) (rev (pre @ c # e))) = e"
proof -
  have "takeWhile (\<lambda>x. x \<noteq> c) (rev e @ c # rev pre) = rev e"
    using assms by (subst takeWhile_append2) auto
  then show ?thesis by simp
qed

lemma afterLast_append_rev:
  assumes "c \<notin> set e"
  shows "rev (takeWhile (\<lambda>x. x \<noteq> c) (rev e @ c # rev pre)) = e"
  using afterLast_append [OF assms, of pre] by simp

lemma afterLast_split:
  assumes "c \<in> set s"
  shows "\<exists>pre. s = pre @ c # rev (takeWhile (\<lambda>x. x \<noteq> c) (rev s))
           \<and> c \<notin> set (takeWhile (\<lambda>x. x \<noteq> c) (rev s))"
proof -
  let ?P = "\<lambda>x. x \<noteq> c"
  from assms have "dropWhile ?P (rev s) \<noteq> []" by (auto simp: dropWhile_eq_Nil_conv)
  then obtain d ds where d: "dropWhile ?P (rev s) = d # ds" by (cases "dropWhile ?P (rev s)") auto
  then have "d = c" using hd_dropWhile [of ?P "rev s"] by auto
  with d have "rev s = takeWhile ?P (rev s) @ c # ds"
    using takeWhile_dropWhile_id [of ?P "rev s"] by simp
  then have "s = rev ds @ c # rev (takeWhile ?P (rev s))"
    by (metis rev_append rev.simps(2) rev_rev_ident append_assoc append_Cons append_Nil)
  moreover have "c \<notin> set (takeWhile ?P (rev s))"
    by (auto dest: set_takeWhileD)
  ultimately show ?thesis by blast
qed

lemma toLowerAscii_dot: "toLowerAscii c = CHR ''.'' \<longleftrightarrow> c = CHR ''.''"
  by (simp add: toLowerAscii_def)

lemma isImageName_iff:
  "isImageName name \<longleftrightarrow>
     (case extension name of
        Some x \<Rightarrow> map toLowerAscii x \<in> {''jpg'', ''jpeg'', ''png'', ''webp'', ''gif''}
      | None \<Rightarrow> False)"
proof
  assume "isImageName name"
  then obtain e pre where e: "e \<in> set imageExtensions"
    and n: "map toLowerAscii name = pre @ CHR ''.'' # e"
    by (auto simp: isImageName_def endsWith_iff)
  from e have nodot: "CHR ''.'' \<notin> set e" by (auto simp: imageExtensions_def)
  from n obtain a c b where name: "name = a @ c # b" and c: "toLowerAscii c = CHR ''.''"
    and b: "map toLowerAscii b = e"
    by (auto simp: map_eq_append_conv map_eq_Cons_conv)
  from c have c': "c = CHR ''.''" by (simp add: toLowerAscii_dot)
  have "CHR ''.'' \<notin> set b"
  proof
    assume "CHR ''.'' \<in> set b"
    then have "toLowerAscii (CHR ''.'') \<in> set (map toLowerAscii b)" by (simp del: toLowerAscii_dot)
    with b nodot show False by (simp add: toLowerAscii_dot [THEN iffD2])
  qed
  with name c' have "extension name = Some b"
    by (simp add: extension_def afterLast_append_rev)
  with b e show "case extension name of
        Some x \<Rightarrow> map toLowerAscii x \<in> {''jpg'', ''jpeg'', ''png'', ''webp'', ''gif''}
      | None \<Rightarrow> False"
    by (simp add: imageExtensions_def)
next
  assume r: "case extension name of
        Some x \<Rightarrow> map toLowerAscii x \<in> {''jpg'', ''jpeg'', ''png'', ''webp'', ''gif''}
      | None \<Rightarrow> False"
  then obtain x where x: "extension name = Some x"
    and m: "map toLowerAscii x \<in> set imageExtensions"
    by (auto simp: imageExtensions_def split: option.splits)
  from x have dot: "CHR ''.'' \<in> set name"
    and x': "x = rev (takeWhile (\<lambda>c. c \<noteq> CHR ''.'') (rev name))"
    by (auto simp: extension_def split: if_splits)
  from afterLast_split [OF dot] x' obtain pre where "name = pre @ CHR ''.'' # x" by auto
  then have "map toLowerAscii name = map toLowerAscii pre @ CHR ''.'' # map toLowerAscii x"
    by (simp add: toLowerAscii_dot [THEN iffD2])
  with m show "isImageName name"
    unfolding isImageName_def endsWith_iff by blast
qed

lemma zipFilter_qualifies: "zipFilter e = qualifies e"
  by (simp add: zipFilter_def qualifies_def isImageName_iff)

lemma split_nonempty: "split s c \<noteq> []"
  by (induction s) (auto split: list.splits)

lemma split_no_sep: "c \<notin> set s \<Longrightarrow> split s c = [s]"
  by (induction s) auto

lemma split_sep: "c \<in> set s \<Longrightarrow> \<exists>h a t. split s c = h # a # t"
proof (induction s)
  case Nil
  then show ?case by simp
next
  case (Cons x xs)
  show ?case
  proof (cases "x = c")
    case True
    then show ?thesis using split_nonempty [of xs c] by (cases "split xs c") auto
  next
    case False
    with Cons.prems have "c \<in> set xs" by simp
    from Cons.IH [OF this] False show ?thesis by auto
  qed
qed

lemma takeWhile_snoc_stop: "\<not> P c \<Longrightarrow> takeWhile P (ys @ [c]) = takeWhile P ys"
  by (induction ys) auto

lemma split_last: "last (split s c) = rev (takeWhile (\<lambda>x. x \<noteq> c) (rev s))"
proof (induction s)
  case Nil
  then show ?case by simp
next
  case (Cons x xs)
  show ?case
  proof (cases "x = c")
    case True
    with Cons.IH show ?thesis
      by (simp add: split_nonempty takeWhile_snoc_stop)
  next
    case False
    show ?thesis
    proof (cases "c \<in> set xs")
      case True
      from split_sep [OF True] obtain h a t where h: "split xs c = h # a # t" by blast
      have "takeWhile (\<lambda>x. x \<noteq> c) (rev xs @ [x]) = takeWhile (\<lambda>x. x \<noteq> c) (rev xs)"
        using True by (intro takeWhile_append1 [of c]) auto
      with Cons.IH h False show ?thesis by simp
    next
      case nosep: False
      with False have "\<forall>y \<in> set (rev (x # xs)). y \<noteq> c" by auto
      then have "takeWhile (\<lambda>x. x \<noteq> c) (rev (x # xs)) = rev (x # xs)"
        by (simp only: takeWhile_eq_all_conv)
      then have "rev (takeWhile (\<lambda>x. x \<noteq> c) (rev (x # xs))) = x # xs"
        by (simp only: rev_rev_ident)
      moreover from False nosep have "last (split (x # xs) c) = x # xs"
        by (simp add: split_no_sep)
      ultimately show ?thesis by (simp only:)
    qed
  qed
qed

lemma toLowerAscii_slash: "toLowerAscii (CHR ''/'') = CHR ''/''"
  by (simp add: toLowerAscii_def)

lemma isImageName_last:
  assumes "isImageName name"
  shows "name \<noteq> [] \<and> last name \<noteq> CHR ''/''"
proof -
  from assms obtain e pre where e: "e \<in> set imageExtensions"
    and n: "map toLowerAscii name = pre @ CHR ''.'' # e"
    by (auto simp: isImageName_def endsWith_iff)
  from n have ne: "name \<noteq> []" by auto
  from e have "e \<noteq> [] \<and> last e \<noteq> CHR ''/''" by (auto simp: imageExtensions_def)
  with n have "last (map toLowerAscii name) \<noteq> CHR ''/''" by simp
  with ne have "toLowerAscii (last name) \<noteq> CHR ''/''" by (simp add: last_map)
  with ne show ?thesis using toLowerAscii_slash by auto
qed

lemma cleanName_image:
  assumes "isImageName name"
  shows "cleanName name = lastSegment name"
proof -
  from isImageName_last [OF assms] have ne: "name \<noteq> []" and l: "last name \<noteq> CHR ''/''"
    by simp_all
  from ne have "rev name = last name # rev (butlast name)"
    by (metis append_butlast_last_id rev.simps(2) rev_append rev_rev_ident append_Nil rev_singleton_conv)
  then have "takeWhile (\<lambda>x. x \<noteq> CHR ''/'') (rev name)
      = takeWhile (\<lambda>x. x \<noteq> CHR ''/'') (last name # rev (butlast name))"
    by (simp only:)
  with l have "takeWhile (\<lambda>x. x \<noteq> CHR ''/'') (rev name) \<noteq> []" by simp
  then show ?thesis
    by (simp add: cleanName_def lastSegment_def split_last Let_def)
qed

lemma extract_names:
  assumes "file_data zipFile = ZipBytes entries"
  shows "\<exists>images. extractImagesFromZip zipFile = Inr images
           \<and> length images = length (filter zipFilter entries)
           \<and> map file_name images = map (\<lambda>e. lastSegment (fst e)) (filter zipFilter entries)"
proof -
  have "cleanName (fst e) = lastSegment (fst e)" if "e \<in> set (filter zipFilter entries)" for e
    using that by (auto simp: zipFilter_def cleanName_image)
  then show ?thesis
    using assms by (auto simp: extractImagesFromZip_def comp_def split_beta)
qed

lemma collect_zip:
  assumes "isZipFile zipFile" "extractImagesFromZip zipFile = Inr images"
  shows "collectFiles [zipFile] (acc, al, n) =
           (acc @ map (\<lambda>(k, img). newUpload k img) (zip [n ..< n + length images] images), al, n + length images)"
  using assms by simp

lemma queued_names:
  "map originalName (map (\<lambda>(k, img). newUpload k img) (zip [n ..< n + length images] images))
     = map file_name images"
proof -
  let ?z = "zip [n ..< n + length images] images"
  have "map originalName (map (\<lambda>(k, img). newUpload k img) ?z) = map (\<lambda>p. file_name (snd p)) ?z"
    by (simp add: newUpload_def split_beta)
  also have "\<dots> = map file_name (map snd ?z)"
    by (simp only: map_map comp_def)
  also have "map snd ?z = images"
    by (rule map_snd_zip) simp
  finally show ?thesis .
qed

section \<open>Intake of an archive\<close>

lemma processFiles_zip:
  assumes "file_data zipFile = ZipBytes entries" "isZipFile zipFile"
  shows "\<exists>images new. extractImagesFromZip zipFile = Inr images
           \<and> length images = length (filter zipFilter entries)
           \<and> map file_name images = map (\<lambda>e. lastSegment (fst e)) (filter zipFilter entries)
           \<and> files (processFiles [zipFile] st) = files st @ new
           \<and> map upload new = images
           \<and> map originalName new = map file_name images
           \<and> (\<forall>f \<in> set new. status f = pending \<and> processedBlob f = None)"
proof -
  from extract_names [OF assms(1)] obtain images where
    ex: "extractImagesFromZip zipFile = Inr images"
    and len: "length images = length (filter zipFilter entries)"
    and names: "map file_name images = map (\<lambda>e. lastSegment (fst e)) (filter zipFilter entries)"
    by blast
  let ?z = "zip [nextId st ..< nextId st + length images] images"
  let ?new = "map (\<lambda>(k, img). newUpload k img) ?z"
  have f: "files (processFiles [zipFile] st) = files st @ ?new"
    by (simp add: processFiles_def collect_zip [OF assms(2) ex] del: collectFiles.simps)
  have u: "map upload ?new = images"
    by (simp add: newUpload_def split_beta comp_def)
  have p: "\<forall>f \<in> set ?new. status f = pending \<and> processedBlob f = None"
    by (auto simp: newUpload_def)
  from ex len names f u p queued_names [of "nextId st" images] show ?thesis by blast
qed

text \<open>
  C5. For every file the intake takes for an archive and the library reads, with \<open>N\<close>
  qualifying entries and \<open>M\<close> others among its entries: extraction yields exactly \<open>N\<close>
  files, and the intake appends exactly \<open>N\<close> pending items to the queue.
\<close>

theorem C5_archive_round_trip:
  assumes "file_data zipFile = ZipBytes entries" "isZipFile zipFile"
  shows "\<exists>images new. extractImagesFromZip zipFile = Inr images
           \<and> length images = length (filter qualifies entries)
           \<and> files (processFiles [zipFile] st) = files st @ new
           \<and> length new = length (filter qualifies entries)
           \<and> (\<forall>f \<in> set new. status f = pending)
           \<and> length (filter qualifies entries) + length (filter (\<lambda>e. \<not> qualifies e) entries)
               = length entries"
proof -
  have q: "qualifies e = zipFilter e" for e :: "string \<times> FileData ZipObject"
    by (simp add: zipFilter_qualifies)
  from processFiles_zip [OF assms, of st] obtain images new where
    "extractImagesFromZip zipFile = Inr images" "length images = length (filter zipFilter entries)"
    "files (processFiles [zipFile] st) = files st @ new" "map upload new = images"
    "\<forall>f \<in> set new. status f = pending \<and> processedBlob f = None"
    by blast
  moreover from this have "length new = length images" by (metis length_map)
  ultimately show ?thesis
    unfolding q using sum_length_filter_compl [of zipFilter entries] by auto
qed

lemma sampleEntries_qualifying:
  "filter qualifies sampleEntries
     = [(''2023/beach.JPG'', Entry (ImageBytes landscape)), (''2024/beach.JPG'', Entry (ImageBytes logo))]"
  "filter (\<lambda>e. \<not> qualifies e) sampleEntries
     = [(''2023/'', Dir), (''2023/notes.txt'', Entry OtherBytes), (''icons.png/'', Dir),
        (''thumbs.gif.bak'', Entry OtherBytes)]"
  by (simp_all add: sampleEntries_def qualifies_def extension_def toLowerAscii_def)

theorem C5_archive_round_trip_witness:
  "file_data sampleZip = ZipBytes sampleEntries \<and> isZipFile sampleZip
   \<and> length (filter qualifies sampleEntries) = 2
   \<and> length (filter (\<lambda>e. \<not> qualifies e) sampleEntries) = 4
   \<and> (\<exists>images. extractImagesFromZip sampleZip = Inr images \<and> length images = 2)
   \<and> length (files (processFiles [sampleZip] emptyState)) = 2"
proof -
  have h: "file_data sampleZip = ZipBytes sampleEntries" "isZipFile sampleZip"
    by (simp_all add: sampleZip_def isZipFile_def)
  have n: "length (filter qualifies sampleEntries) = 2"
    "length (filter (\<lambda>e. \<not> qualifies e) sampleEntries) = 4"
    by (simp_all only: sampleEntries_qualifying) simp_all
  have e: "files emptyState = []" by (simp add: emptyState_def)
  from C5_archive_round_trip [OF h, of emptyState] obtain images new where
    "extractImagesFromZip sampleZip = Inr images" "length images = 2"
    "files (processFiles [sampleZip] emptyState) = new" "length new = 2"
    unfolding n e by auto
  with h n show ?thesis by auto
qed

lemma packageZip_step_keys:
  "fst ` set (foldl (\<lambda>z f. case processedBlob f of
                Some blob \<Rightarrow> if status f = success
                  then zip_file (folderName config @ ''/'') (fileName (originalName f) config) blob z
                  else z
              | None \<Rightarrow> z) z fs)
     = fst ` set z \<union> zipKey config ` {f \<in> set fs. packaged f}"
proof (induction fs arbitrary: z)
  case Nil
  then show ?case by simp
next
  case (Cons f fs)
  show ?case
    by (simp only: foldl.simps Cons.IH)
       (auto simp: zip_file_def zipKey_def packaged_def dom_update split: option.splits)
qed

lemma packageZip_keys:
  "fst ` set (packageZip fs config)
     = insert (folderName config @ ''/'') (zipKey config ` {f \<in> set fs. packaged f})"
  by (simp add: packageZip_def packageZip_step_keys zip_folder_def)

text \<open>
  C9. The files extracted from an archive, and the queue items made of them, carry the
  last path segment of their entry's name, in the order of the entries: the folders are
  gone. The output archive files every item under a name computed from that name alone,
  so entries of one base name in different folders share their name in the queue and in
  the output archive.
\<close>

theorem C9_flattened_names:
  assumes "file_data zipFile = ZipBytes entries" "isZipFile zipFile"
  shows "\<exists>images new. extractImagesFromZip zipFile = Inr images
           \<and> map file_name images = map (\<lambda>e. lastSegment (fst e)) (filter qualifies entries)
           \<and> files (processFiles [zipFile] st) = files st @ new
           \<and> map originalName new = map (\<lambda>e. lastSegment (fst e)) (filter qualifies entries)
           \<and> fst ` set (packageZip (files st @ new) config)
               = insert (folderName config @ ''/'')
                   ((\<lambda>f. folderName config @ ''/'' @ fileName (originalName f) config)
                      ` {f \<in> set (files st @ new). packaged f})"
proof -
  have q: "qualifies e = zipFilter e" for e :: "string \<times> FileData ZipObject"
    by (simp add: zipFilter_qualifies)
  from processFiles_zip [OF assms, of st] obtain images new where
    "extractImagesFromZip zipFile = Inr images"
    "map file_name images = map (\<lambda>e. lastSegment (fst e)) (filter zipFilter entries)"
    "files (processFiles [zipFile] st) = files st @ new"
    "map originalName new = map file_name images"
    by blast
  then show ?thesis
    unfolding q using packageZip_keys [of "files st @ new" config]
    by (auto simp: zipKey_def [abs_def])
qed

theorem C9_flattened_names_witness:
  "file_data sampleZip = ZipBytes sampleEntries \<and> isZipFile sampleZip
   \<and> map fst (filter qualifies sampleEntries) = [''2023/beach.JPG'', ''2024/beach.JPG'']
   \<and> map originalName (files (processFiles [sampleZip] emptyState)) = [''beach.JPG'', ''beach.JPG'']
   \<and> map (\<lambda>f. fileName (originalName f) initialConfig) (files (processFiles [sampleZip] emptyState))
       = [''beach_800x600_converted.jpeg'', ''beach_800x600_converted.jpeg'']"
proof -
  have h: "file_data sampleZip = ZipBytes sampleEntries" "isZipFile sampleZip"
    by (simp_all add: sampleZip_def isZipFile_def)
  have e: "files emptyState = []" by (simp add: emptyState_def)
  have l: "map (\<lambda>e. lastSegment (fst e)) (filter qualifies sampleEntries) = [''beach.JPG'', ''beach.JPG'']"
    by (simp only: sampleEntries_qualifying) (simp add: lastSegment_def)
  have n: "fileName ''beach.JPG'' initialConfig = ''beach_800x600_converted.jpeg''"
    by (simp add: fileName_def baseName_def substring0_def lastIndexOf_def ext_def initialConfig_def
          digits.simps)
  from C9_flattened_names [OF h, of emptyState initialConfig] obtain new where
    f: "files (processFiles [sampleZip] emptyState) = new"
    and o: "map originalName new = [''beach.JPG'', ''beach.JPG'']"
    unfolding e l by auto
  have "map (\<lambda>f. fileName (originalName f) initialConfig) new
       = map (\<lambda>name. fileName name initialConfig) (map originalName new)"
    by (simp add: comp_def)
  also have "\<dots> = [''beach_800x600_converted.jpeg'', ''beach_800x600_converted.jpeg'']"
    by (simp only: o list.map n)
  finally have k: "map (\<lambda>f. fileName (originalName f) initialConfig) new
       = [''beach_800x600_converted.jpeg'', ''beach_800x600_converted.jpeg'']" .
  have q: "map fst (filter qualifies sampleEntries) = [''2023/beach.JPG'', ''2024/beach.JPG'']"
    by (simp add: sampleEntries_qualifying)
  from h q o k show ?thesis by (simp only: f)
qed

section \<open>The batch run\<close>

lemma processImage_upload:
  "upload f = upload g \<Longrightarrow> processImage b f config = processImage b g config"
  by (simp add: processImage_def)

lemma processItem_eq:
  assumes "i < length fs"
  shows "processItem b config fs i =
           (if processImage b (fs ! i) config = None then None
            else Some (fs[i := settle b config (fs ! i)], resolves b config (fs ! i)))"
proof -
  have "processImage b ((fs ! i)\<lparr>status := processing\<rparr>) config = processImage b (fs ! i) config"
    by (rule processImage_upload) simp
  with assms show ?thesis
    by (auto simp: processItem_def Let_def settle_def resolves_def split: option.splits sum.splits)
qed

lemma js_round_100: "0 < n \<Longrightarrow> js_round (double (double (real n / real n) * 100)) = 100"
  by (simp add: js_round_def double_def binade_def roundTiesToEven_def compute_floorlog)

lemma processQueue_eq:
  assumes "i \<le> length fs"
  shows "processQueue b config i fs sc fc p =
           (if \<forall>f \<in> set (drop i fs). processImage b f config \<noteq> None
            then Some (take i fs @ map (settle b config) (drop i fs),
                       sc + length (filter (resolves b config) (drop i fs)),
                       fc + length (filter (\<lambda>f. \<not> resolves b config f) (drop i fs)),
                       if i < length fs then 100 else p)
            else None)"
  using assms
proof (induction "length fs - i" arbitrary: i fs sc fc p)
  case 0
  then have "i = length fs" by simp
  then show ?case by (subst processQueue.simps) simp
next
  case (Suc n)
  then have lt: "i < length fs" by simp
  let ?f = "fs ! i" and ?fs = "fs[i := settle b config (fs ! i)]"
  have d: "drop i fs = ?f # drop (Suc i) fs"
    using lt by (simp add: Cons_nth_drop_Suc)
  show ?case
  proof (cases "processImage b ?f config = None")
    case True
    with lt d show ?thesis
      by (subst processQueue.simps) (simp add: processItem_eq)
  next
    case False
    have n: "n = length ?fs - Suc i" using Suc(2) by simp
    have le: "Suc i \<le> length ?fs" using lt by simp
    have d': "drop (Suc i) ?fs = drop (Suc i) fs" by simp
    have t': "take (Suc i) ?fs = take i fs @ [settle b config ?f]"
      using lt by (simp add: take_Suc_conv_app_nth)
    define q where "q = js_round (double (double (real (i + 1) / real (length ?fs)) * 100))"
    have q: "q = 100" if "\<not> Suc i < length fs"
    proof -
      from that lt have e: "i + 1 = length ?fs" by simp
      from lt have "0 < length fs" by linarith
      then have "0 < length ?fs" by (simp only: length_list_update)
      from js_round_100 [OF this] show ?thesis by (simp only: q_def e)
    qed
    have step: "processQueue b config i fs sc fc p =
        processQueue b config (Suc i) ?fs
          (if resolves b config ?f then sc + 1 else sc)
          (if resolves b config ?f then fc else fc + 1) q"
    proof -
      from False obtain r where r: "processImage b ?f config = Some r" by auto
      show ?thesis
        unfolding q_def using lt
        by (subst processQueue.simps) (simp add: processItem_eq r)
    qed
    note IH = Suc(1) [OF n le, unfolded d' t']
    show ?thesis
      unfolding step using lt False by (auto simp: IH d q)
  qed
qed

lemma settle_fields:
  "upload (settle b config f) = upload f"
  "originalName (settle b config f) = originalName f"
  "id (settle b config f) = id f"
  "status (settle b config f) = (if resolves b config f then success else error)"
  by (auto simp: settle_def resolves_def split: option.splits sum.splits)

lemma settle_resolved:
  "processImage b f config = Some (Inr blob) \<Longrightarrow>
     settle b config f = f\<lparr>status := success, processedBlob := Some blob\<rparr>"
  by (simp add: settle_def)

lemma settle_rejected:
  "processImage b f config = Some (Inl e) \<Longrightarrow>
     settle b config f = f\<lparr>status := error, errorMessage := Some ''Conversion failed''\<rparr>"
  by (simp add: settle_def)

lemma packaged_settle: "packaged (settle b config f) = resolves b config f"
  by (auto simp: packaged_def settle_def resolves_def split: option.splits sum.splits)

lemma successful_settled:
  "filter (\<lambda>f. status f = success \<and> processedBlob f \<noteq> None) (map (settle b config) fs)
     = map (settle b config) (filter (resolves b config) fs)"
  using packaged_settle [of b config]
  by (simp add: filter_map comp_def packaged_def)

lemma startProcessing_eq:
  assumes "files st \<noteq> []"
  shows "startProcessing b config st =
           (if \<forall>f \<in> set (files st). processImage b f config \<noteq> None
            then Some (finishRun b config
                         (st\<lparr>isProcessing := True, progress := 0, summary := None,
                             files := map (settle b config) (files st), progress := 100\<rparr>)
                         (map (settle b config) (files st))
                         (length (filter (resolves b config) (files st)))
                         (length (filter (\<lambda>f. \<not> resolves b config f) (files st))))
            else None)"
  using assms by (simp add: startProcessing_def processQueue_eq Let_def)

text \<open>
  C10. With an empty queue \<open>startProcessing\<close> returns at once, and the state it returns
  in is the state it was called in: \<open>isProcessing\<close>, \<open>progress\<close>, the items, the summary
  and the downloads are untouched.
\<close>

theorem C10_empty_queue_noop:
  assumes "files st = []"
  shows "startProcessing b config st = Some st"
  using assms by (simp add: startProcessing_def)

theorem C10_empty_queue_noop_witness:
  "files emptyState = [] \<and> startProcessing plainBrowser initialConfig emptyState = Some emptyState"
proof -
  have h: "files emptyState = []" by (simp add: emptyState_def)
  from C10_empty_queue_noop [OF h] h show ?thesis by simp
qed

lemma baseName_stem:
  assumes "stem \<noteq> []" "CHR ''.'' \<notin> set e"
  shows "baseName (stem @ ''.'' @ e) = stem"
proof -
  let ?s = "stem @ CHR ''.'' # e"
  have "rev (takeWhile (\<lambda>x. x \<noteq> CHR ''.'') (rev ?s)) = e"
    using assms(2) by (rule afterLast_append)
  then have "length (takeWhile (\<lambda>x. x \<noteq> CHR ''.'') (rev ?s)) = length e"
    by (metis length_rev)
  then have "lastIndexOf ?s CHR ''.'' = int (length stem)"
    by (simp add: lastIndexOf_def)
  then have "substring0 ?s (lastIndexOf ?s CHR ''.'') = stem"
    by (simp add: substring0_def)
  with assms(1) show ?thesis by (simp add: baseName_def Let_def)
qed

lemma baseName_nodot: "CHR ''.'' \<notin> set name \<Longrightarrow> baseName name = name"
  by (simp add: baseName_def lastIndexOf_def substring0_def)

lemma ext_format:
  "ext config = (case format config of JPG \<Rightarrow> ''jpeg'' | PNG \<Rightarrow> ''png'' | WEBP \<Rightarrow> ''webp'')"
  by (cases "format config") (simp_all add: ext_def)

lemma finishRun_frame:
  "files (finishRun b config st fs sc fc) = files st"
  "progress (finishRun b config st fs sc fc) = progress st"
  "isProcessing (finishRun b config st fs sc fc) = False"
  by (simp_all add: finishRun_def Let_def split: option.splits)

lemma finishRun_summary_cases:
  assumes "summary st = None"
  shows "summary (finishRun b config st fs sc fc) = None
     \<or> (\<exists>name. summary (finishRun b config st fs sc fc)
           = Some \<lparr>total = length fs, success_count = sc, failed = fc, outputZipName = name\<rparr>)"
  using assms by (simp add: finishRun_def Let_def split: option.splits)

lemma finishRun_summary:
  assumes "summary st = None" "summary (finishRun b config st fs sc fc) = Some s"
  shows "total s = length fs \<and> success_count s = sc \<and> failed s = fc"
  using finishRun_summary_cases [OF assms(1), of b config fs sc fc] assms(2) by auto

lemma finishRun_summary_set:
  assumes "saveAs_ok b" "generateAsync_ok b"
  shows "summary (finishRun b config st fs sc fc) \<noteq> None"
  using assms by (simp add: finishRun_def Let_def split: option.splits)

lemma finishRun_none:
  "saved (finishRun b config st fs 0 fc) = saved st"
  by (simp add: finishRun_def)

lemma finishRun_single:
  assumes "0 < sc" "filter (\<lambda>f. status f = success \<and> processedBlob f \<noteq> None) fs = [f]"
    and "processedBlob f = Some blob"
  shows "saved (finishRun b config st fs sc fc) = saved st @ [(SavedImage blob, fileName (originalName f) config)]
     \<and> (saveAs_ok b \<longrightarrow> summary (finishRun b config st fs sc fc)
           = Some \<lparr>total = length fs, success_count = sc, failed = fc,
                   outputZipName = fileName (originalName f) config\<rparr>)"
  using assms by (simp add: finishRun_def Let_def)

lemma finishRun_zip:
  assumes "0 < sc" "length (filter (\<lambda>f. status f = success \<and> processedBlob f \<noteq> None) fs) \<noteq> 1"
    and "generateAsync_ok b"
  shows "saved (finishRun b config st fs sc fc)
           = saved st @ [(SavedZip (packageZip fs config), ''converted_images_'' @ digits (now b) @ ''.zip'')]"
  using assms by (simp add: finishRun_def Let_def)

lemma status_settled:
  "filter (\<lambda>f. status f = success) (map (settle b config) fs)
     = map (settle b config) (filter (resolves b config) fs)"
  by (simp add: filter_map comp_def settle_fields)

lemma fileName_eq:
  "fileName name config =
     baseName name
     @ (if keepOriginalSize config then [] else ''_'' @ digits (width config) @ ''x'' @ digits (height config))
     @ ''_converted.''
     @ (case format config of JPG \<Rightarrow> ''jpeg'' | PNG \<Rightarrow> ''png'' | WEBP \<Rightarrow> ''webp'')"
  by (simp add: fileName_def ext_format)

text \<open>
  C8. When a run returns with exactly one successful item, \<open>saveAs\<close> is called once more,
  with the blob of that item and the name \<open>{base}_{width}x{height}_converted.{ext}\<close>, or
  \<open>{base}_converted.{ext}\<close> when the original size is kept. The extension is
  \<open>jpeg\<close>, \<open>png\<close> or \<open>webp\<close> by the target format, and the base is the original name up to
  its last dot.
\<close>

theorem C8_single_download_name:
  assumes "startProcessing b config st = Some st'"
    and "length (filter (\<lambda>f. status f = success) (files st')) = 1"
  shows "\<exists>f blob. f \<in> set (files st) \<and> processImage b f config = Some (Inr blob)
           \<and> saved st' = saved st @
                [(SavedImage blob,
                  baseName (originalName f)
                  @ (if keepOriginalSize config then []
                     else ''_'' @ digits (width config) @ ''x'' @ digits (height config))
                  @ ''_converted.''
                  @ (case format config of JPG \<Rightarrow> ''jpeg'' | PNG \<Rightarrow> ''png'' | WEBP \<Rightarrow> ''webp''))]
           \<and> (\<forall>stem e. originalName f = stem @ ''.'' @ e \<and> stem \<noteq> [] \<and> CHR ''.'' \<notin> set e
                  \<longrightarrow> baseName (originalName f) = stem)"
proof -
  let ?fs = "map (settle b config) (files st)"
  let ?sc = "length (filter (resolves b config) (files st))"
  let ?fc = "length (filter (\<lambda>f. \<not> resolves b config f) (files st))"
  let ?st0 = "st\<lparr>isProcessing := True, progress := 0, summary := None, files := ?fs, progress := 100\<rparr>"
  have ne: "files st \<noteq> []"
  proof
    assume "files st = []"
    with assms(1) have "st' = st" by (simp add: startProcessing_def)
    with assms(2) \<open>files st = []\<close> show False by simp
  qed
  from assms(1) have st': "st' = finishRun b config ?st0 ?fs ?sc ?fc"
    by (simp add: startProcessing_eq [OF ne] split: if_splits)
  then have "files st' = ?fs" by (simp add: finishRun_frame)
  with assms(2) have one: "length (filter (resolves b config) (files st)) = 1"
    by (simp add: status_settled)
  then obtain f where f: "filter (resolves b config) (files st) = [f]"
    by (auto simp: length_Suc_conv)
  then have "f \<in> set (filter (resolves b config) (files st))" by simp
  then have mem: "f \<in> set (files st)" and res: "resolves b config f" by simp_all
  from res obtain blob where blob: "processImage b f config = Some (Inr blob)"
    by (auto simp: resolves_def split: option.splits sum.splits)
  have succ: "filter (\<lambda>f. status f = success \<and> processedBlob f \<noteq> None) ?fs = [settle b config f]"
    by (simp only: successful_settled f list.map)
  have pb: "processedBlob (settle b config f) = Some blob"
    by (simp add: settle_resolved [OF blob])
  have "0 < ?sc" using one by simp
  from finishRun_single [OF this succ pb, of b config ?st0 ?fc]
  have "saved st' = saved st @ [(SavedImage blob, fileName (originalName f) config)]"
    by (simp add: st' settle_fields)
  then have "saved st' = saved st @
                [(SavedImage blob,
                  baseName (originalName f)
                  @ (if keepOriginalSize config then []
                     else ''_'' @ digits (width config) @ ''x'' @ digits (height config))
                  @ ''_converted.''
                  @ (case format config of JPG \<Rightarrow> ''jpeg'' | PNG \<Rightarrow> ''png'' | WEBP \<Rightarrow> ''webp''))]"
    by (simp only: fileName_eq)
  moreover have "\<forall>stem e. originalName f = stem @ ''.'' @ e \<and> stem \<noteq> [] \<and> CHR ''.'' \<notin> set e
                  \<longrightarrow> baseName (originalName f) = stem"
    using baseName_stem by auto
  ultimately show ?thesis using mem blob by blast
qed

lemma photo_resolves:
  "resolves plainBrowser photoConfig (pendingItem 0 ''photo.png'' (ImageBytes landscape))"
  by (simp add: resolves_def processImage_plain [where img = landscape] pendingItem_def newUpload_def
        watermarkRequested_def photoConfig_def initialConfig_def)

theorem C8_single_download_name_witness:
  "\<exists>st'. startProcessing plainBrowser photoConfig photoState = Some st'
         \<and> length (filter (\<lambda>f. status f = success) (files st')) = 1
         \<and> map snd (saved st') = [''photo_300x300_converted.png'']"
proof -
  let ?item = "pendingItem 0 ''photo.png'' (ImageBytes landscape)"
  have fs: "files photoState = [?item]" and sv: "saved photoState = []"
    by (simp_all add: photoState_def emptyState_def)
  have ret: "\<forall>f \<in> set (files photoState). processImage plainBrowser f photoConfig \<noteq> None"
    using photo_resolves by (auto simp: fs resolves_def split: option.splits)
  from fs have ne: "files photoState \<noteq> []" by simp
  from startProcessing_eq [OF ne, of plainBrowser photoConfig] ret obtain st' where
    h1: "startProcessing plainBrowser photoConfig photoState = Some st'"
    and f': "files st' = map (settle plainBrowser photoConfig) (files photoState)"
    by (simp add: finishRun_frame)
  have h2: "length (filter (\<lambda>f. status f = success) (files st')) = 1"
    by (simp add: f' fs settle_fields photo_resolves)
  have cfg: "\<not> keepOriginalSize photoConfig" "width photoConfig = 300" "height photoConfig = 300"
    "format photoConfig = PNG"
    by (simp_all add: photoConfig_def initialConfig_def)
  have bn: "baseName ''photo.png'' = ''photo''"
    by (simp add: baseName_def lastIndexOf_def substring0_def)
  have dg: "digits 300 = ''300''"
    by (simp add: digits.simps)
  have on: "originalName ?item = ''photo.png''"
    by (simp add: pendingItem_def newUpload_def)
  from C8_single_download_name [OF h1 h2] obtain f blob where
    "f \<in> set (files photoState)"
    "saved st' = saved photoState @
                [(SavedImage blob,
                  baseName (originalName f)
                  @ (if keepOriginalSize photoConfig then []
                     else ''_'' @ digits (width photoConfig) @ ''x'' @ digits (height photoConfig))
                  @ ''_converted.''
                  @ (case format photoConfig of JPG \<Rightarrow> ''jpeg'' | PNG \<Rightarrow> ''png'' | WEBP \<Rightarrow> ''webp''))]"
    by blast
  then have "map snd (saved st') = [''photo_300x300_converted.png'']"
    by (simp add: fs sv cfg bn on dg)
  with h1 h2 show ?thesis by (intro exI [of _ st'] conjI)
qed

section \<open>The output archive\<close>

lemma update_fresh: "k \<notin> fst ` set al \<Longrightarrow> AList.update k v al = al @ [(k, v)]"
  by (induction al) auto

lemma packageZip_step_distinct:
  assumes "distinct (map (zipKey config) (filter packaged fs))"
    and "\<forall>f \<in> set (filter packaged fs). zipKey config f \<notin> fst ` set z"
  shows "\<exists>es. foldl (\<lambda>z f. case processedBlob f of
                Some blob \<Rightarrow> if status f = success
                  then zip_file (folderName config @ ''/'') (fileName (originalName f) config) blob z
                  else z
              | None \<Rightarrow> z) z fs = z @ es
           \<and> map fst es = map (zipKey config) (filter packaged fs)
           \<and> (\<forall>e \<in> set es. \<not> dir (snd e))"
  using assms
proof (induction fs arbitrary: z)
  case Nil
  then show ?case by simp
next
  case (Cons f fs)
  show ?case
  proof (cases "packaged f")
    case False
    with Cons.prems have "distinct (map (zipKey config) (filter packaged fs))"
      "\<forall>f \<in> set (filter packaged fs). zipKey config f \<notin> fst ` set z"
      by simp_all
    from Cons.IH [OF this] False show ?thesis
      by (auto simp: packaged_def split: option.splits)
  next
    case True
    then obtain blob where blob: "processedBlob f = Some blob" and st: "status f = success"
      by (auto simp: packaged_def)
    let ?z = "z @ [(zipKey config f, Entry blob)]"
    from Cons.prems True have fresh: "zipKey config f \<notin> fst ` set z" by simp
    have step: "zip_file (folderName config @ ''/'') (fileName (originalName f) config) blob z = ?z"
      using update_fresh [OF fresh] by (simp add: zip_file_def zipKey_def)
    from Cons.prems True have d: "distinct (map (zipKey config) (filter packaged fs))"
      by simp
    have n: "\<forall>g \<in> set (filter packaged fs). zipKey config g \<notin> fst ` set ?z"
    proof
      fix g
      assume g: "g \<in> set (filter packaged fs)"
      with Cons.prems(2) have "zipKey config g \<notin> fst ` set z" by simp
      moreover from Cons.prems(1) True have "zipKey config f \<notin> set (map (zipKey config) (filter packaged fs))"
        by simp
      with g have "zipKey config g \<noteq> zipKey config f" by (metis image_eqI set_map)
      ultimately show "zipKey config g \<notin> fst ` set ?z" by simp
    qed
    from Cons.IH [OF d n] obtain es where
      es: "foldl (\<lambda>z f. case processedBlob f of
                Some blob \<Rightarrow> if status f = success
                  then zip_file (folderName config @ ''/'') (fileName (originalName f) config) blob z
                  else z
              | None \<Rightarrow> z) ?z fs = ?z @ es"
      and k: "map fst es = map (zipKey config) (filter packaged fs)"
      and e: "\<forall>e \<in> set es. \<not> dir (snd e)"
      by blast
    show ?thesis
    proof (intro exI [of _ "(zipKey config f, Entry blob) # es"] conjI)
      show "foldl (\<lambda>z f. case processedBlob f of
                Some blob \<Rightarrow> if status f = success
                  then zip_file (folderName config @ ''/'') (fileName (originalName f) config) blob z
                  else z
              | None \<Rightarrow> z) z (f # fs) = z @ (zipKey config f, Entry blob) # es"
        using es by (simp add: blob st step)
      show "map fst ((zipKey config f, Entry blob) # es) = map (zipKey config) (filter packaged (f # fs))"
        using k True by simp
      show "\<forall>e \<in> set ((zipKey config f, Entry blob) # es). \<not> dir (snd e)"
        using e by simp
    qed
  qed
qed

lemma fileName_nonempty: "fileName name config \<noteq> []"
  by (simp add: fileName_def)

lemma packageZip_distinct:
  assumes "distinct (map (\<lambda>f. fileName (originalName f) config) (filter packaged fs))"
  shows "map fst (packageZip fs config)
           = (folderName config @ ''/'') # map (zipKey config) (filter packaged fs)
     \<and> length (filter (\<lambda>e. \<not> dir (snd e)) (packageZip fs config)) = length (filter packaged fs)"
proof -
  have inj: "zipKey config f = zipKey config g \<longleftrightarrow>
               fileName (originalName f) config = fileName (originalName g) config" for f g
    by (simp add: zipKey_def)
  have "distinct (map (zipKey config) (filter packaged fs))"
    using assms by (simp add: distinct_map inj_on_def inj)
  moreover have "\<forall>f \<in> set (filter packaged fs).
      zipKey config f \<notin> fst ` set [(folderName config @ ''/'', Dir :: Blob ZipObject)]"
    by (simp add: zipKey_def fileName_nonempty)
  ultimately obtain es where
    "packageZip fs config = [(folderName config @ ''/'', Dir)] @ es"
    "map fst es = map (zipKey config) (filter packaged fs)" "\<forall>e \<in> set es. \<not> dir (snd e)"
    using packageZip_step_distinct [of config fs "[(folderName config @ ''/'', Dir)]"]
    by (auto simp: packageZip_def zip_folder_def)
  moreover from this have "length es = length (filter packaged fs)" by (metis length_map)
  ultimately show ?thesis by simp
qed

lemma packaged_settled:
  "filter packaged (map (settle b config) fs) = map (settle b config) (filter (resolves b config) fs)"
  by (simp add: filter_map comp_def packaged_settle)

text \<open>
  The run over a non-empty queue in which every composite returns. It returns; every
  item is settled in place, in queue order: successful with its blob where the composite
  resolved, failed with the reason \<open>Conversion failed\<close> where it rejected. A summary, when
  one is set, counts the queue, the resolved and the rejected composites, and one is set
  whenever serialising and saving do not throw. With two or more successes under
  pairwise different output names the archive handed to \<open>saveAs\<close> holds the folder and
  one entry per success.
\<close>

theorem batch_run_outcome:
  assumes "files st \<noteq> []" "\<forall>f \<in> set (files st). processImage b f config \<noteq> None"
  shows "\<exists>st'. startProcessing b config st = Some st'
           \<and> files st' = map (settle b config) (files st)
           \<and> (\<forall>s. summary st' = Some s \<longrightarrow>
                  total s = length (files st)
                  \<and> success_count s = length (filter (resolves b config) (files st))
                  \<and> failed s = length (filter (\<lambda>f. \<not> resolves b config f) (files st)))
           \<and> (saveAs_ok b \<and> generateAsync_ok b \<longrightarrow> summary st' \<noteq> None)
           \<and> (2 \<le> length (filter (resolves b config) (files st)) \<and> generateAsync_ok b
                \<and> distinct (map (\<lambda>f. fileName (originalName f) config)
                               (filter (resolves b config) (files st)))
                \<longrightarrow> (\<exists>z name. saved st' = saved st @ [(SavedZip z, name)]
                       \<and> map fst z = (folderName config @ ''/'')
                             # map (zipKey config) (filter (resolves b config) (files st))
                       \<and> length (filter (\<lambda>e. \<not> dir (snd e)) z)
                           = length (filter (resolves b config) (files st))))"
proof -
  let ?fs = "map (settle b config) (files st)"
  let ?ok = "filter (resolves b config) (files st)"
  let ?sc = "length ?ok"
  let ?fc = "length (filter (\<lambda>f. \<not> resolves b config f) (files st))"
  let ?st0 = "st\<lparr>isProcessing := True, progress := 0, summary := None, files := ?fs, progress := 100\<rparr>"
  let ?st' = "finishRun b config ?st0 ?fs ?sc ?fc"
  have run: "startProcessing b config st = Some ?st'"
    using assms(2) by (simp add: startProcessing_eq [OF assms(1)])
  have fs: "files ?st' = ?fs" by (simp add: finishRun_frame)
  have s0: "summary ?st0 = None" by simp
  have sm: "\<forall>s. summary ?st' = Some s \<longrightarrow>
              total s = length (files st) \<and> success_count s = ?sc \<and> failed s = ?fc"
    using finishRun_summary [OF s0, of b config ?fs ?sc ?fc] by simp
  have set: "saveAs_ok b \<and> generateAsync_ok b \<longrightarrow> summary ?st' \<noteq> None"
    using finishRun_summary_set [of b config ?st0 ?fs ?sc ?fc] by blast
  have zp: "\<exists>z name. saved ?st' = saved st @ [(SavedZip z, name)]
                       \<and> map fst z = (folderName config @ ''/'') # map (zipKey config) ?ok
                       \<and> length (filter (\<lambda>e. \<not> dir (snd e)) z) = ?sc"
    if two: "2 \<le> ?sc" and gen: "generateAsync_ok b"
      and dist: "distinct (map (\<lambda>f. fileName (originalName f) config) ?ok)"
  proof -
    have pos: "0 < ?sc" using two by linarith
    have "length (filter (\<lambda>f. status f = success \<and> processedBlob f \<noteq> None) ?fs) = ?sc"
      by (simp only: successful_settled length_map)
    with two have many: "length (filter (\<lambda>f. status f = success \<and> processedBlob f \<noteq> None) ?fs) \<noteq> 1"
      by linarith
    from finishRun_zip [OF pos many gen, of config ?st0 ?fc]
    have sv: "saved ?st' = saved st @ [(SavedZip (packageZip ?fs config),
                ''converted_images_'' @ digits (now b) @ ''.zip'')]"
      by simp
    have "map (\<lambda>f. fileName (originalName f) config) (filter packaged ?fs)
            = map (\<lambda>f. fileName (originalName f) config) ?ok"
      by (simp add: packaged_settled comp_def settle_fields)
    with dist have "distinct (map (\<lambda>f. fileName (originalName f) config) (filter packaged ?fs))"
      by simp
    from packageZip_distinct [OF this]
    have "map fst (packageZip ?fs config) = (folderName config @ ''/'') # map (zipKey config) ?ok"
      and "length (filter (\<lambda>e. \<not> dir (snd e)) (packageZip ?fs config)) = ?sc"
      by (simp_all add: packaged_settled comp_def zipKey_def settle_fields)
    with sv show ?thesis
      by (intro exI [of _ "packageZip ?fs config"]
                exI [of _ "''converted_images_'' @ digits (now b) @ ''.zip''"] conjI)
  qed
  show ?thesis
  proof (intro exI [of _ ?st'] conjI)
    show "startProcessing b config st = Some ?st'" by (rule run)
    show "files ?st' = ?fs" by (rule fs)
    show "\<forall>s. summary ?st' = Some s \<longrightarrow>
              total s = length (files st) \<and> success_count s = ?sc \<and> failed s = ?fc" by (rule sm)
    show "saveAs_ok b \<and> generateAsync_ok b \<longrightarrow> summary ?st' \<noteq> None" by (rule set)
    show "2 \<le> ?sc \<and> generateAsync_ok b
            \<and> distinct (map (\<lambda>f. fileName (originalName f) config) ?ok)
          \<longrightarrow> (\<exists>z name. saved ?st' = saved st @ [(SavedZip z, name)]
                       \<and> map fst z = (folderName config @ ''/'') # map (zipKey config) ?ok
                       \<and> length (filter (\<lambda>e. \<not> dir (snd e)) z) = ?sc)"
      using zp by blast
  qed
qed

lemma composites_of_examples:
  "processImage plainBrowser (pendingItem n name (ImageBytes landscape)) initialConfig = Some (Inr landscapeBlob)"
  "processImage plainBrowser (pendingItem n name (ImageBytes logo)) initialConfig = Some (Inr logoBlob)"
  "processImage plainBrowser (pendingItem n name OtherBytes) initialConfig = Some (Inl DecodeError)"
proof -
  show "processImage plainBrowser (pendingItem n name (ImageBytes landscape)) initialConfig = Some (Inr landscapeBlob)"
    by (simp add: processImage_plain [where img = landscape] pendingItem_def newUpload_def
          watermarkRequested_def initialConfig_def drawBase_def baseRect_def
          shouldFillBackground_def landscape_def landscapeBlob_def Let_def)
  show "processImage plainBrowser (pendingItem n name (ImageBytes logo)) initialConfig = Some (Inr logoBlob)"
    by (simp add: processImage_plain [where img = logo] pendingItem_def newUpload_def
          watermarkRequested_def initialConfig_def drawBase_def baseRect_def
          shouldFillBackground_def logo_def logoBlob_def Let_def)
  show "processImage plainBrowser (pendingItem n name OtherBytes) initialConfig = Some (Inl DecodeError)"
    by (simp add: processImage_def loadImage_def pendingItem_def newUpload_def)
qed

lemma outcomes_of_examples:
  "resolves plainBrowser initialConfig (pendingItem n name (ImageBytes landscape))"
  "resolves plainBrowser initialConfig (pendingItem n name (ImageBytes logo))"
  "\<not> resolves plainBrowser initialConfig (pendingItem n name OtherBytes)"
  "settle plainBrowser initialConfig (pendingItem n name (ImageBytes landscape))
     = (pendingItem n name (ImageBytes landscape))\<lparr>status := success, processedBlob := Some landscapeBlob\<rparr>"
  "settle plainBrowser initialConfig (pendingItem n name (ImageBytes logo))
     = (pendingItem n name (ImageBytes logo))\<lparr>status := success, processedBlob := Some logoBlob\<rparr>"
  "settle plainBrowser initialConfig (pendingItem n name OtherBytes)
     = (pendingItem n name OtherBytes)\<lparr>status := error, errorMessage := Some ''Conversion failed''\<rparr>"
  "originalName (pendingItem n name d) = name"
  "processedBlob (pendingItem n name d) = None"
  by (simp_all add: resolves_def settle_def composites_of_examples)
     (simp_all add: pendingItem_def newUpload_def)

lemma names_of_examples:
  "fileName ''a.png'' initialConfig = ''a_800x600_converted.jpeg''"
  "fileName ''a.jpg'' initialConfig = ''a_800x600_converted.jpeg''"
  "fileName ''c.jpg'' initialConfig = ''c_800x600_converted.jpeg''"
  "folderName initialConfig = ''converted_800x600''"
  "digits (now plainBrowser) = ''1700000000000''"
  by (simp_all add: fileName_def folderName_def baseName_def substring0_def lastIndexOf_def ext_def
        initialConfig_def plainBrowser_def digits.simps)

text \<open>
  C3, at a queue the code can receive: \<open>a.png\<close> and \<open>a.jpg\<close> decode, \<open>b.png\<close> does not. The
  summary is \<open>{total: 3, success: 2, failed: 1}\<close>, as the claim says, but both successes
  are filed as \<open>a_800x600_converted.jpeg\<close>, the second replaces the first, and the archive
  holds one image, not two.
\<close>

theorem C3_name_clash_loses_entry:
  "map_option summary (startProcessing plainBrowser initialConfig clashState)
     = Some (Some \<lparr>total = 3, success_count = 2, failed = 1,
                      outputZipName = ''converted_images_1700000000000.zip''\<rparr>)
   \<and> map_option saved (startProcessing plainBrowser initialConfig clashState)
     = Some [(SavedZip [(''converted_800x600/'', Dir),
                        (''converted_800x600/a_800x600_converted.jpeg'', Entry logoBlob)],
              ''converted_images_1700000000000.zip'')]"
proof -
  have fs: "files clashState =
      [pendingItem 0 ''a.png'' (ImageBytes landscape), pendingItem 1 ''a.jpg'' (ImageBytes logo),
       pendingItem 2 ''b.png'' OtherBytes]"
    and e: "saved clashState = []"
    by (simp_all add: clashState_def emptyState_def)
  have ne: "files clashState \<noteq> []" by (simp add: fs)
  have ret: "\<forall>f \<in> set (files clashState). processImage plainBrowser f initialConfig \<noteq> None"
    by (simp add: fs composites_of_examples)
  have b: "generateAsync_ok plainBrowser" "saveAs_ok plainBrowser"
    by (simp_all add: plainBrowser_def)
  have run: "startProcessing plainBrowser initialConfig clashState =
      Some (finishRun plainBrowser initialConfig
              (clashState\<lparr>isProcessing := True, progress := 0, summary := None,
                 files := map (settle plainBrowser initialConfig) (files clashState), progress := 100\<rparr>)
              (map (settle plainBrowser initialConfig) (files clashState))
              (length (filter (resolves plainBrowser initialConfig) (files clashState)))
              (length (filter (\<lambda>f. \<not> resolves plainBrowser initialConfig f) (files clashState))))"
    by (subst startProcessing_eq [OF ne], rule if_P, rule ret)
  show ?thesis
    by (simp add: run fs e b outcomes_of_examples finishRun_def packageZip_def zip_file_def
          zip_folder_def Let_def names_of_examples)
qed

theorem batch_run_outcome_witness:
  "\<exists>st'. startProcessing plainBrowser initialConfig scenarioState = Some st'
         \<and> map status (files st') = [success, success, error]
         \<and> map_option (\<lambda>s. (total s, success_count s, failed s)) (summary st') = Some (3, 2, 1)
         \<and> (\<exists>z name. saved st' = [(SavedZip z, name)]
               \<and> map fst z = [''converted_800x600/'', ''converted_800x600/a_800x600_converted.jpeg'',
                              ''converted_800x600/c_800x600_converted.jpeg'']
               \<and> length (filter (\<lambda>e. \<not> dir (snd e)) z) = 2)"
proof -
  have fs: "files scenarioState =
      [pendingItem 0 ''a.png'' (ImageBytes landscape), pendingItem 1 ''c.jpg'' (ImageBytes logo),
       pendingItem 2 ''b.png'' OtherBytes]"
    and e: "saved scenarioState = []"
    by (simp_all add: scenarioState_def emptyState_def)
  have ne: "files scenarioState \<noteq> []" by (simp add: fs)
  have ret: "\<forall>f \<in> set (files scenarioState). processImage plainBrowser f initialConfig \<noteq> None"
    by (simp add: fs composites_of_examples)
  have b: "generateAsync_ok plainBrowser" "saveAs_ok plainBrowser"
    by (simp_all add: plainBrowser_def)
  from batch_run_outcome [OF ne ret] obtain st' where
    run: "startProcessing plainBrowser initialConfig scenarioState = Some st'"
    and f': "files st' = map (settle plainBrowser initialConfig) (files scenarioState)"
    and sm: "\<forall>s. summary st' = Some s \<longrightarrow> total s = 3 \<and> success_count s = 2 \<and> failed s = 1"
    and st: "summary st' \<noteq> None"
    and zp: "\<exists>z name. saved st' = [(SavedZip z, name)]
               \<and> map fst z = [''converted_800x600/'', ''converted_800x600/a_800x600_converted.jpeg'',
                              ''converted_800x600/c_800x600_converted.jpeg'']
               \<and> length (filter (\<lambda>e. \<not> dir (snd e)) z) = 2"
    using b by (auto simp: fs e outcomes_of_examples names_of_examples zipKey_def)
  have "map status (files st') = [success, success, error]"
    by (simp add: f' fs outcomes_of_examples)
  moreover from sm st have "map_option (\<lambda>s. (total s, success_count s, failed s)) (summary st') = Some (3, 2, 1)"
    by auto
  ultimately show ?thesis using run zp by (intro exI [of _ st'] conjI)
qed

end
